theory Spec2Isabelle
  imports Main "HOL-Library.FSet" "HOL-Library.Multiset" "HOL-Library.AList"
begin

section \<open>Python values, errors and generators\<close>

text \<open>
  The grouping and aggregation engine of \<^verbatim>\<open>petl/transform/reductions.py\<close> works on
  tables: sequences of rows whose first row is the header. A cell holds an arbitrary
  Python object. The objects that the engine inspects are modelled by \<open>val\<close>; HOL
  equality on \<open>val\<close> stands for Python's \<^verbatim>\<open>==\<close> (booleans are the integers 0 and 1 they
  compare equal to; floating point numbers are left out).
\<close>

datatype error =
    StopIteration
  | TypeError
  | IndexError
  | KeyError
  | ValueError
  | FieldSelectionError string
  | PyException string
  | UserError nat

text \<open>Callables: the two builtins the engine names, and user functions by number.\<close>

datatype pyfun = Len | ListF | UserFun nat

datatype val =
    VNone
  | VInt int
  | VStr string
  | VTuple "val list"
  | VList "val list"
  | VDict "(val \<times> val) list"
  | VConflict "val fset"
  | VFun pyfun
  | VIter "val list"

type_synonym row = "val list"
type_synonym table = "row list"

text \<open>
  What iterating a generator gives: the items it yields, in order, and the exception
  that ended the iteration, if any.
\<close>

type_synonym 'a gen = "'a list \<times> error option"

text \<open>
  The environment: what a user function returns for an argument, \<^verbatim>\<open>str()\<close> of an
  object that is not text already, and the order in which a frozenset is iterated.
\<close>

record env =
  user_call :: "nat \<Rightarrow> val \<Rightarrow> error + val"
  str_of :: "val \<Rightarrow> string"
  set_iter :: "val fset \<Rightarrow> val list"

definition ebind :: "error + 'a \<Rightarrow> ('a \<Rightarrow> error + 'b) \<Rightarrow> error + 'b" where
  "ebind m f = (case m of Inl e \<Rightarrow> Inl e | Inr x \<Rightarrow> f x)"

fun emap :: "('a \<Rightarrow> error + 'b) \<Rightarrow> 'a list \<Rightarrow> error + 'b list" where
  "emap f [] = Inr []"
| "emap f (x # xs) =
     (case f x of Inl e \<Rightarrow> Inl e
      | Inr y \<Rightarrow> (case emap f xs of Inl e \<Rightarrow> Inl e | Inr ys \<Rightarrow> Inr (y # ys)))"

text \<open>\<^verbatim>\<open>yield x\<close> in front of the rest of a generator.\<close>

definition yield :: "'a \<Rightarrow> 'a gen \<Rightarrow> 'a gen" where
  "yield x g = (x # fst g, snd g)"

text \<open>\<^verbatim>\<open>for x in xs: yield f(x)\<close>, where \<open>f\<close> may raise.\<close>

fun yield_each :: "('a \<Rightarrow> error + 'b) \<Rightarrow> 'a list \<Rightarrow> 'b gen" where
  "yield_each f [] = ([], None)"
| "yield_each f (x # xs) =
     (case f x of Inl e \<Rightarrow> ([], Some e) | Inr y \<Rightarrow> yield y (yield_each f xs))"

definition raise :: "error \<Rightarrow> 'a gen" where
  "raise e = ([], Some e)"

subsection \<open>Builtins\<close>

fun callable :: "val \<Rightarrow> bool" where
  "callable (VFun f) = True"
| "callable v = False"

fun is_string :: "val \<Rightarrow> bool" where
  "is_string (VStr s) = True"
| "is_string v = False"

fun is_list_or_tuple :: "val \<Rightarrow> bool" where
  "is_list_or_tuple (VList vs) = True"
| "is_list_or_tuple (VTuple vs) = True"
| "is_list_or_tuple v = False"

fun is_dict :: "val \<Rightarrow> bool" where
  "is_dict (VDict d) = True"
| "is_dict v = False"

text \<open>Lists and dicts are not hashable, and a tuple is when its members are.\<close>

fun hashable :: "val \<Rightarrow> bool" where
  "hashable (VList vs) = False"
| "hashable (VDict d) = False"
| "hashable (VTuple vs) = (\<forall>v \<in> set vs. hashable v)"
| "hashable v = True"

text \<open>\<^verbatim>\<open>set(items)\<close> raises \<^verbatim>\<open>TypeError\<close> on an unhashable item.\<close>

definition py_set :: "val list \<Rightarrow> error + val fset" where
  "py_set vs = (if list_all hashable vs then Inr (fset_of_list vs) else Inl TypeError)"

fun py_len :: "val \<Rightarrow> error + int" where
  "py_len (VStr s) = Inr (int (length s))"
| "py_len (VTuple vs) = Inr (int (length vs))"
| "py_len (VList vs) = Inr (int (length vs))"
| "py_len (VDict d) = Inr (int (length d))"
| "py_len (VConflict S) = Inr (int (fcard S))"
| "py_len v = Inl TypeError"

text \<open>Iterating an object: \<^verbatim>\<open>list(v)\<close>, \<^verbatim>\<open>tuple(v)\<close> and unpacking go through it.\<close>

fun py_iter :: "env \<Rightarrow> val \<Rightarrow> error + val list" where
  "py_iter E (VStr s) = Inr (map (\<lambda>c. VStr [c]) s)"
| "py_iter E (VTuple vs) = Inr vs"
| "py_iter E (VList vs) = Inr vs"
| "py_iter E (VIter vs) = Inr vs"
| "py_iter E (VDict d) = Inr (map fst d)"
| "py_iter E (VConflict S) = Inr (set_iter E S)"
| "py_iter E v = Inl TypeError"

text \<open>\<^verbatim>\<open>v[0]\<close>.\<close>

fun py_item0 :: "val \<Rightarrow> error + val" where
  "py_item0 (VStr s) = (case s of [] \<Rightarrow> Inl IndexError | c # cs \<Rightarrow> Inr (VStr [c]))"
| "py_item0 (VTuple vs) = (case vs of [] \<Rightarrow> Inl IndexError | x # xs \<Rightarrow> Inr x)"
| "py_item0 (VList vs) = (case vs of [] \<Rightarrow> Inl IndexError | x # xs \<Rightarrow> Inr x)"
| "py_item0 (VDict d) = (case map_of d (VInt 0) of None \<Rightarrow> Inl KeyError | Some x \<Rightarrow> Inr x)"
| "py_item0 v = Inl TypeError"

text \<open>\<^verbatim>\<open>v[1:]\<close>.\<close>

fun py_slice1 :: "val \<Rightarrow> error + val" where
  "py_slice1 (VStr s) = Inr (VStr (tl s))"
| "py_slice1 (VTuple vs) = Inr (VTuple (tl vs))"
| "py_slice1 (VList vs) = Inr (VList (tl vs))"
| "py_slice1 v = Inl TypeError"

text \<open>Calling an object with one argument.\<close>

fun call :: "env \<Rightarrow> val \<Rightarrow> val \<Rightarrow> error + val" where
  "call E (VFun Len) x = ebind (py_len x) (\<lambda>n. Inr (VInt n))"
| "call E (VFun ListF) x = ebind (py_iter E x) (\<lambda>vs. Inr (VList vs))"
| "call E (VFun (UserFun n)) x = user_call E n x"
| "call E f x = Inl TypeError"

text \<open>\<^verbatim>\<open>text_type(v)\<close>: text stays as it is.\<close>

fun text_type :: "env \<Rightarrow> val \<Rightarrow> string" where
  "text_type E (VStr s) = s"
| "text_type E v = str_of E v"

section \<open>The Conflict value type\<close>

text \<open>
  \<^verbatim>\<open>class Conflict(frozenset)\<close>: the constructor only builds the frozenset of the items,
  and equality is that of frozensets.
\<close>

definition Conflict :: "val fset \<Rightarrow> val" where
  "Conflict items = VConflict items"

text \<open>
  One cell of a merged row, from the set of values collected for it:
  \<^verbatim>\<open>vals.pop() if len(vals) == 1 else missing if len(vals) == 0 else Conflict(vals)\<close>.
\<close>

definition normedval :: "val \<Rightarrow> val fset \<Rightarrow> val" where
  "normedval missing vals =
     (if fcard vals = 1 then fthe_elem vals
      else if fcard vals = 0 then missing
      else Conflict vals)"

section \<open>Keys, groups and the collaborators of the engine\<close>

text \<open>
  A key specification: one field name, a list or tuple of field names, or a callable
  that derives the key from a row (taken to be a pure, total function).
\<close>

datatype keyspec = KField string | KFields "string list" | KCallable "row \<Rightarrow> val"

text \<open>\<^verbatim>\<open>xs.index(x)\<close>: the first position of \<open>x\<close>, \<^verbatim>\<open>ValueError\<close> when there is none.\<close>

fun list_index :: "'a list \<Rightarrow> 'a \<Rightarrow> error + nat" where
  "list_index [] x = Inl ValueError"
| "list_index (y # ys) x =
     (if y = x then Inr 0 else ebind (list_index ys x) (\<lambda>i. Inr (Suc i)))"

text \<open>
  Modelled from the spec: indexing a row handed out by the Row-Group Iterator, which is
  not among the sources. "Shorter rows are conceptually padded with a missing sentinel
  when fields are indexed beyond their length."
\<close>

definition getitem_padded :: "row \<Rightarrow> nat \<Rightarrow> val" where
  "getitem_padded r i = (if i < length r then r ! i else VNone)"

text \<open>
  Modelled from the spec: resolving a field name against the header, not among the
  sources. "A key field not present among header names is a configuration error
  surfaced at iteration time."
\<close>

definition field_index :: "env \<Rightarrow> row \<Rightarrow> string \<Rightarrow> error + nat" where
  "field_index E hdr f =
     (case list_index (map (text_type E) hdr) f of
        Inl e \<Rightarrow> Inl (FieldSelectionError f)
      | Inr i \<Rightarrow> Inr i)"

text \<open>
  Modelled from the spec: the function that extracts the key (or the value) of a row
  under a key specification; "compound keys compare element-wise as tuples".
\<close>

definition keyfun :: "env \<Rightarrow> row \<Rightarrow> keyspec \<Rightarrow> error + (row \<Rightarrow> val)" where
  "keyfun E hdr key =
     (case key of
        KField f \<Rightarrow> ebind (field_index E hdr f) (\<lambda>i. Inr (\<lambda>r. getitem_padded r i))
      | KFields fs \<Rightarrow>
          ebind (emap (field_index E hdr) fs)
            (\<lambda>idxs. Inr (\<lambda>r. VTuple (map (getitem_padded r) idxs)))
      | KCallable g \<Rightarrow> Inr g)"

text \<open>
  Modelled from the spec: "one pair per maximal run of equal consecutive keys", in
  encounter order, the key of a run being that of its first row.
\<close>

fun groupby :: "('k \<times> 'a) list \<Rightarrow> ('k \<times> 'a list) list" where
  "groupby [] = []"
| "groupby ((k, x) # kxs) =
     (case groupby kxs of
        [] \<Rightarrow> [(k, [x])]
      | (k', g) # rest \<Rightarrow> if k' = k then (k, x # g) # rest else (k, [x]) # (k', g) # rest)"

text \<open>
  Modelled from the spec: the Row-Group Iterator \<^verbatim>\<open>rowgroupby(table, key)\<close> of
  \<^verbatim>\<open>petl.util.base\<close>, not among the sources. It takes the header off the table, resolves
  the key against it and groups the data rows; "an empty input yields an empty sequence
  of pairs". A table without a header row ends the iteration with \<^verbatim>\<open>StopIteration\<close>.
\<close>

definition rowgroupby :: "env \<Rightarrow> table \<Rightarrow> keyspec \<Rightarrow> error + (val \<times> row list) list" where
  "rowgroupby E t key =
     (case t of
        [] \<Rightarrow> Inl StopIteration
      | hdr # rows \<Rightarrow>
          ebind (keyfun E hdr key) (\<lambda>getkey. Inr (groupby (map (\<lambda>r. (getkey r, r)) rows))))"

text \<open>
  Modelled from the spec: \<^verbatim>\<open>rowgroupby(table, key, value)\<close>, where the members of a
  group are "either full rows or extracted value-tuples".
\<close>

definition rowgroupby_value ::
  "env \<Rightarrow> table \<Rightarrow> keyspec \<Rightarrow> keyspec option \<Rightarrow> error + (val \<times> val list) list" where
  "rowgroupby_value E t key value =
     (case t of
        [] \<Rightarrow> Inl StopIteration
      | hdr # rows \<Rightarrow>
          ebind (keyfun E hdr key) (\<lambda>getkey.
          ebind (case value of None \<Rightarrow> Inr VTuple | Some v \<Rightarrow> keyfun E hdr v) (\<lambda>getval.
            Inr (map (\<lambda>(k, rs). (k, map getval rs))
                   (groupby (map (\<lambda>r. (getkey r, r)) rows))))))"

text \<open>
  Modelled from the spec: \<^verbatim>\<open>iterpeek\<close> of \<^verbatim>\<open>petl.util.base\<close>, not among the sources:
  "reads one item ahead, exposes it, and replays it as the first item of a freshly
  constructed sequence". The source is what iterating it gives: its rows, or the
  exception it raises.
\<close>

definition iterpeek :: "error + table \<Rightarrow> error + (row \<times> (error + table))" where
  "iterpeek source =
     ebind source (\<lambda>t. case t of [] \<Rightarrow> Inl StopIteration | hdr # rows \<Rightarrow> Inr (hdr, Inr t))"

text \<open>
  The external sort collaborator \<^verbatim>\<open>sort(table, key, ...)\<close> is a parameter of the views:
  what iterating the sorted table gives.
\<close>

type_synonym sorter = "table \<Rightarrow> keyspec \<Rightarrow> error + table"

text \<open>
  Modelled from the spec: the contract of the sort collaborator, "a black-box operation
  that yields a key-ordered lazy sequence": the header stays, the data rows are
  permuted, and their keys are in the order of \<open>key_le\<close>, a relation that is
  antisymmetric on these keys, as every order is.
\<close>

definition key_ordered :: "(val \<Rightarrow> val \<Rightarrow> bool) \<Rightarrow> env \<Rightarrow> keyspec \<Rightarrow> table \<Rightarrow> bool" where
  "key_ordered key_le E key t =
     (case t of
        [] \<Rightarrow> False
      | hdr # rows \<Rightarrow>
          (case keyfun E hdr key of
             Inl e \<Rightarrow> False
           | Inr getkey \<Rightarrow>
               sorted_wrt key_le (map getkey rows) \<and>
               antisymp_on (getkey ` set rows) key_le))"

definition sort_contract ::
  "(val \<Rightarrow> val \<Rightarrow> bool) \<Rightarrow> env \<Rightarrow> sorter \<Rightarrow> table \<Rightarrow> keyspec \<Rightarrow> bool" where
  "sort_contract key_le E srt t key =
     (case srt t key of
        Inl e \<Rightarrow> False
      | Inr t' \<Rightarrow>
          t \<noteq> [] \<and> t' \<noteq> [] \<and> hd t' = hd t \<and> mset (tl t') = mset (tl t) \<and>
          key_ordered key_le E key t')"

text \<open>\<^verbatim>\<open>for x in source: yield f(x)\<close>, where getting the items of the source may raise.\<close>

definition for_each :: "error + 'a list \<Rightarrow> ('a \<Rightarrow> error + 'b) \<Rightarrow> 'b gen" where
  "for_each source f = (case source of Inl e \<Rightarrow> raise e | Inr xs \<Rightarrow> yield_each f xs)"

section \<open>Row-Reduce View\<close>

type_synonym reducer = "val \<Rightarrow> row list \<Rightarrow> error + row"

record rowreduce_view =
  rrv_source :: "error + table"
  rrv_key :: keyspec
  rrv_fields :: "row option"
  rrv_reducer :: reducer

definition RowReduceView ::
  "sorter \<Rightarrow> table \<Rightarrow> keyspec \<Rightarrow> reducer \<Rightarrow> row option \<Rightarrow> bool \<Rightarrow> rowreduce_view" where
  "RowReduceView srt source key reducer fields' presorted =
     \<lparr> rrv_source = (if presorted then Inr source else srt source key),
       rrv_key = key, rrv_fields = fields', rrv_reducer = reducer \<rparr>"

text \<open>
  \<^verbatim>\<open>iterrowreduce\<close>. The reducer stands for \<^verbatim>\<open>tuple(reducer(key, rows))\<close>: the row it
  returns, or the exception it raises.
\<close>

definition iterrowreduce ::
  "env \<Rightarrow> error + table \<Rightarrow> keyspec \<Rightarrow> reducer \<Rightarrow> row option \<Rightarrow> row gen" where
  "iterrowreduce E source key reducer fields' =
     (case (case fields' of None \<Rightarrow> iterpeek source | Some fs \<Rightarrow> Inr (fs, source)) of
        Inl e \<Rightarrow> raise e
      | Inr (fs, source') \<Rightarrow>
          yield fs
            (for_each (ebind source' (\<lambda>t. rowgroupby E t key))
               (\<lambda>(k, rows). reducer k rows)))"

definition iter_RowReduceView :: "env \<Rightarrow> rowreduce_view \<Rightarrow> row gen" where
  "iter_RowReduceView E v =
     iterrowreduce E (rrv_source v) (rrv_key v) (rrv_reducer v) (rrv_fields v)"

definition rowreduce ::
  "sorter \<Rightarrow> table \<Rightarrow> keyspec \<Rightarrow> reducer \<Rightarrow> row option \<Rightarrow> bool \<Rightarrow> rowreduce_view" where
  "rowreduce srt table key reducer fields' presorted =
     RowReduceView srt table key reducer fields' presorted"

section \<open>Aggregate views\<close>

record simple_aggregate_view =
  sav_table :: "error + table"
  sav_key :: keyspec
  sav_aggregation :: val
  sav_value :: "keyspec option"

definition SimpleAggregateView ::
  "sorter \<Rightarrow> table \<Rightarrow> keyspec \<Rightarrow> val \<Rightarrow> keyspec option \<Rightarrow> bool \<Rightarrow> simple_aggregate_view" where
  "SimpleAggregateView srt table key aggregation value presorted =
     \<lparr> sav_table = (if presorted then Inr table else srt table key),
       sav_key = key, sav_aggregation = aggregation, sav_value = value \<rparr>"

text \<open>\<^verbatim>\<open>sum(1 for _ in g)\<close>: one pass over the group, adding one for each member.\<close>

definition count_iterable :: "val list \<Rightarrow> int" where
  "count_iterable g = sum_list (map (\<lambda>_. 1) g)"

text \<open>
  The aggregation function applied to a group, which is handed over as an iterator;
  \<^verbatim>\<open>len\<close> is replaced by the counting pass.
\<close>

definition aggregate_group :: "env \<Rightarrow> val \<Rightarrow> val list \<Rightarrow> error + val" where
  "aggregate_group E aggregation grp =
     (if aggregation = VFun Len then Inr (VInt (count_iterable grp))
      else call E aggregation (VIter grp))"

definition itersimpleaggregate ::
  "env \<Rightarrow> error + table \<Rightarrow> keyspec \<Rightarrow> val \<Rightarrow> keyspec option \<Rightarrow> row gen" where
  "itersimpleaggregate E table key aggregation value =
     yield
       (case key of
          KFields fs \<Rightarrow> map VStr fs @ [VStr ''value'']
        | KCallable g \<Rightarrow> [VStr ''key'', VStr ''value'']
        | KField f \<Rightarrow> [VStr f, VStr ''value''])
       (for_each (ebind table (\<lambda>t. rowgroupby_value E t key value))
          (\<lambda>(k, grp).
             case key of
               KFields fs \<Rightarrow>
                 ebind (py_iter E k) (\<lambda>ks.
                 ebind (aggregate_group E aggregation grp) (\<lambda>a. Inr (ks @ [a])))
             | _ \<Rightarrow> ebind (aggregate_group E aggregation grp) (\<lambda>a. Inr [k, a])))"

definition iter_SimpleAggregateView :: "env \<Rightarrow> simple_aggregate_view \<Rightarrow> row gen" where
  "iter_SimpleAggregateView E v =
     itersimpleaggregate E (sav_table v) (sav_key v) (sav_aggregation v) (sav_value v)"

record multi_aggregate_view =
  mav_source :: "error + table"
  mav_key :: keyspec
  mav_aggregation :: "(val \<times> val) list"

text \<open>
  \<^verbatim>\<open>for t in aggregation: self.aggregation[t[0]] = t[1:]\<close> on an ordered dict, where an
  assignment to a key that is there keeps its place.
\<close>

fun mav_collect :: "val list \<Rightarrow> (val \<times> val) list \<Rightarrow> error + (val \<times> val) list" where
  "mav_collect [] d = Inr d"
| "mav_collect (t # ts) d =
     ebind (py_slice1 t) (\<lambda>v.
     ebind (py_item0 t) (\<lambda>k.
       if hashable k then mav_collect ts (AList.update k v d) else Inl TypeError))"

definition MultiAggregateView ::
  "sorter \<Rightarrow> table \<Rightarrow> keyspec \<Rightarrow> val \<Rightarrow> bool \<Rightarrow> error + multi_aggregate_view" where
  "MultiAggregateView srt source key aggregation presorted =
     ebind
       (case aggregation of
          VNone \<Rightarrow> Inr []
        | VList ts \<Rightarrow> mav_collect ts []
        | VTuple ts \<Rightarrow> mav_collect ts []
        | VDict d \<Rightarrow> Inr d
        | _ \<Rightarrow> Inl (PyException ''expected aggregation is None, list, tuple or dict''))
       (\<lambda>d. Inr \<lparr> mav_source = (if presorted then Inr source else srt source key),
                  mav_key = key, mav_aggregation = d \<rparr>)"

text \<open>
  The normalisation of one aggregation descriptor into a pair (source field, function).
\<close>

definition normalise :: "val \<Rightarrow> error + val" where
  "normalise agg =
     (if callable agg then Inr (VTuple [VNone, agg])
      else if is_string agg then Inr (VTuple [agg, VFun ListF])
      else
        ebind (py_len agg) (\<lambda>n.
          if n = 1 then
            ebind (py_item0 agg) (\<lambda>a0.
              if is_string a0 then Inr (VTuple [a0, VFun ListF])
              else if callable a0 then Inr (VTuple [VNone, a0])
              else Inl (PyException ''invalid aggregation''))
          else if n = 2 then Inr agg
          else Inl (PyException ''invalid aggregation'')))"

text \<open>
  The loop over the output fields of the mapping that replaces each descriptor by its
  normal form; the keys of the mapping are distinct.
\<close>

definition normalise_aggregators :: "(val \<times> val) list \<Rightarrow> error + (val \<times> val) list" where
  "normalise_aggregators aggregation =
     emap (\<lambda>(outfld, agg). ebind (normalise agg) (\<lambda>a. Inr (outfld, a))) aggregation"

text \<open>\<^verbatim>\<open>operator.itemgetter(*idxs)\<close> on a row of a group.\<close>

definition itemgetter :: "nat list \<Rightarrow> error + (row \<Rightarrow> val)" where
  "itemgetter idxs =
     (case idxs of
        [] \<Rightarrow> Inl TypeError
      | [i] \<Rightarrow> Inr (\<lambda>r. getitem_padded r i)
      | _ \<Rightarrow> Inr (\<lambda>r. VTuple (map (getitem_padded r) idxs)))"

text \<open>One aggregation of a group, whose rows have been collected into a list.\<close>

definition aggregate_field :: "env \<Rightarrow> row \<Rightarrow> row list \<Rightarrow> val \<Rightarrow> error + val" where
  "aggregate_field E hdr rows desc =
     ebind (py_iter E desc) (\<lambda>pair.
       case pair of
         [srcfld, aggfun] \<Rightarrow>
           if srcfld = VNone then call E aggfun (VList (map VTuple rows))
           else if is_list_or_tuple srcfld then
             ebind (py_iter E srcfld) (\<lambda>fs.
             ebind (emap (list_index hdr) fs) (\<lambda>idxs.
             ebind (itemgetter idxs) (\<lambda>valgetter.
               call E aggfun (VIter (map valgetter rows)))))
           else
             ebind (list_index hdr srcfld) (\<lambda>idx.
               call E aggfun (VIter (map (\<lambda>r. getitem_padded r idx) rows)))
       | _ \<Rightarrow> Inl ValueError)"

definition itermultiaggregate ::
  "env \<Rightarrow> error + table \<Rightarrow> keyspec \<Rightarrow> (val \<times> val) list \<Rightarrow> row gen" where
  "itermultiaggregate E source key aggregation =
     (case iterpeek source of
        Inl e \<Rightarrow> raise e
      | Inr (hdr, it) \<Rightarrow>
          (case normalise_aggregators aggregation of
             Inl e \<Rightarrow> raise e
           | Inr aggs \<Rightarrow>
               yield
                 ((case key of
                     KFields fs \<Rightarrow> map VStr fs
                   | KCallable g \<Rightarrow> [VStr ''key'']
                   | KField f \<Rightarrow> [VStr f]) @ map fst aggs)
                 (for_each (ebind it (\<lambda>t. rowgroupby E t key))
                    (\<lambda>(k, rows).
                       ebind (case key of KFields fs \<Rightarrow> py_iter E k | _ \<Rightarrow> Inr [k]) (\<lambda>outrow.
                       ebind (emap (aggregate_field E hdr rows) (map snd aggs)) (\<lambda>aggvals.
                         Inr (outrow @ aggvals)))))))"

definition iter_MultiAggregateView :: "env \<Rightarrow> multi_aggregate_view \<Rightarrow> row gen" where
  "iter_MultiAggregateView E v =
     itermultiaggregate E (mav_source v) (mav_key v) (mav_aggregation v)"

datatype aggregate_view = Simple simple_aggregate_view | Multi multi_aggregate_view

definition aggregate ::
  "sorter \<Rightarrow> table \<Rightarrow> keyspec \<Rightarrow> val \<Rightarrow> keyspec option \<Rightarrow> bool \<Rightarrow> error + aggregate_view" where
  "aggregate srt table key aggregation value presorted =
     (if callable aggregation then
        Inr (Simple (SimpleAggregateView srt table key aggregation value presorted))
      else if aggregation = VNone \<or> is_list_or_tuple aggregation \<or> is_dict aggregation then
        ebind (MultiAggregateView srt table key aggregation presorted) (\<lambda>v. Inr (Multi v))
      else Inl (PyException ''expected aggregation is callable, list, tuple, dict or None''))"

text \<open>Iterating the table that \<^verbatim>\<open>aggregate\<close> returned, if it returned one.\<close>

definition iter_aggregate :: "env \<Rightarrow> error + aggregate_view \<Rightarrow> error + row gen" where
  "iter_aggregate E r =
     ebind r (\<lambda>v. case v of
       Simple s \<Rightarrow> Inr (iter_SimpleAggregateView E s)
     | Multi m \<Rightarrow> Inr (iter_MultiAggregateView E m))"

section \<open>Merge-Duplicates View\<close>

record mergeduplicates_view =
  mdv_table :: "error + table"
  mdv_key :: keyspec
  mdv_missing :: val

definition MergeDuplicatesView ::
  "sorter \<Rightarrow> table \<Rightarrow> keyspec \<Rightarrow> val \<Rightarrow> bool \<Rightarrow> mergeduplicates_view" where
  "MergeDuplicatesView srt table key missing presorted =
     \<lparr> mdv_table = (if presorted then Inr table else srt table key),
       mdv_key = key, mdv_missing = missing \<rparr>"

text \<open>
  \<^verbatim>\<open>[set(row[i] for row in grp if len(row) > i and row[i] != missing) for i in valfldidxs]\<close>
\<close>

definition mergedvals :: "val \<Rightarrow> row list \<Rightarrow> nat list \<Rightarrow> error + val fset list" where
  "mergedvals missing grp valfldidxs =
     emap (\<lambda>i. py_set (map (\<lambda>row. row ! i)
                         (filter (\<lambda>row. length row > i \<and> row ! i \<noteq> missing) grp)))
       valfldidxs"

text \<open>
  The body of the loop over the groups: the key cells (\<^verbatim>\<open>[k]\<close> for a field name key,
  \<^verbatim>\<open>list(k)\<close> otherwise) followed by one merged cell for each value field.
\<close>

definition merge_group ::
  "env \<Rightarrow> keyspec \<Rightarrow> val \<Rightarrow> nat list \<Rightarrow> val \<times> row list \<Rightarrow> error + row" where
  "merge_group E key missing valfldidxs =
     (\<lambda>(k, grp).
        ebind (case key of KField f \<Rightarrow> Inr [k] | _ \<Rightarrow> py_iter E k) (\<lambda>outrow.
        ebind (mergedvals missing grp valfldidxs) (\<lambda>mvs.
          Inr (outrow @ map (normedval missing) mvs))))"

definition itermergeduplicates :: "env \<Rightarrow> error + table \<Rightarrow> keyspec \<Rightarrow> val \<Rightarrow> row gen" where
  "itermergeduplicates E table key missing =
     (case iterpeek table of
        Inl e \<Rightarrow> raise e
      | Inr (hdr, it) \<Rightarrow>
          (let flds = map (text_type E) hdr in
           case (case key of
                   KField f \<Rightarrow> Inr [f]
                 | KFields fs \<Rightarrow> Inr fs
                 | KCallable g \<Rightarrow> Inl TypeError) of
             Inl e \<Rightarrow> raise e
           | Inr outflds \<Rightarrow>
               (let keyflds = set outflds;
                    valflds = filter (\<lambda>f. f \<notin> keyflds) flds in
                case emap (list_index flds) valflds of
                  Inl e \<Rightarrow> raise e
                | Inr valfldidxs \<Rightarrow>
                    yield (map VStr (outflds @ valflds))
                      (for_each (ebind it (\<lambda>t. rowgroupby E t key))
                         (merge_group E key missing valfldidxs)))))"

definition iter_MergeDuplicatesView :: "env \<Rightarrow> mergeduplicates_view \<Rightarrow> row gen" where
  "iter_MergeDuplicatesView E v =
     itermergeduplicates E (mdv_table v) (mdv_key v) (mdv_missing v)"

definition mergeduplicates ::
  "sorter \<Rightarrow> table \<Rightarrow> keyspec \<Rightarrow> val \<Rightarrow> bool \<Rightarrow> mergeduplicates_view" where
  "mergeduplicates srt table key missing presorted =
     MergeDuplicatesView srt table key missing presorted"

section \<open>Fold View\<close>

type_synonym binop = "val \<Rightarrow> val \<Rightarrow> error + val"

record fold_view =
  fv_table :: "error + table"
  fv_key :: keyspec
  fv_f :: binop
  fv_value :: "keyspec option"

definition FoldView ::
  "sorter \<Rightarrow> table \<Rightarrow> keyspec \<Rightarrow> binop \<Rightarrow> keyspec option \<Rightarrow> bool \<Rightarrow> fold_view" where
  "FoldView srt table key f value presorted =
     \<lparr> fv_table = (if presorted then Inr table else srt table key),
       fv_key = key, fv_f = f, fv_value = value \<rparr>"

text \<open>
  \<^verbatim>\<open>reduce(f, grp)\<close> without an initial value: the first member starts the accumulator,
  and an empty sequence raises \<^verbatim>\<open>TypeError\<close>.
\<close>

fun reduce_from :: "binop \<Rightarrow> val \<Rightarrow> val list \<Rightarrow> error + val" where
  "reduce_from f acc [] = Inr acc"
| "reduce_from f acc (x # xs) = ebind (f acc x) (\<lambda>acc'. reduce_from f acc' xs)"

fun py_reduce :: "binop \<Rightarrow> val list \<Rightarrow> error + val" where
  "py_reduce f [] = Inl TypeError"
| "py_reduce f (x # xs) = reduce_from f x xs"

definition iterfold :: "env \<Rightarrow> error + table \<Rightarrow> keyspec \<Rightarrow> binop \<Rightarrow> keyspec option \<Rightarrow> row gen" where
  "iterfold E table key f value =
     yield [VStr ''key'', VStr ''value'']
       (for_each (ebind table (\<lambda>t. rowgroupby_value E t key value))
          (\<lambda>(k, grp). ebind (py_reduce f grp) (\<lambda>v. Inr [k, v])))"

definition iter_FoldView :: "env \<Rightarrow> fold_view \<Rightarrow> row gen" where
  "iter_FoldView E v = iterfold E (fv_table v) (fv_key v) (fv_f v) (fv_value v)"

definition fold_table ::
  "sorter \<Rightarrow> table \<Rightarrow> keyspec \<Rightarrow> binop \<Rightarrow> keyspec option \<Rightarrow> bool \<Rightarrow> fold_view" where
  "fold_table srt table key f value presorted = FoldView srt table key f value presorted"

text \<open>\<^verbatim>\<open>operator.add\<close> on the values modelled.\<close>

fun operator_add :: binop where
  "operator_add (VInt a) (VInt b) = Inr (VInt (a + b))"
| "operator_add (VStr a) (VStr b) = Inr (VStr (a @ b))"
| "operator_add (VTuple a) (VTuple b) = Inr (VTuple (a @ b))"
| "operator_add (VList a) (VList b) = Inr (VList (a @ b))"
| "operator_add a b = Inl TypeError"

section \<open>Specification-side definitions\<close>


text \<open>
  The distinct key values present in a table: the keys of its data rows under the key
  specification.
\<close>

definition table_keys :: "env \<Rightarrow> keyspec \<Rightarrow> table \<Rightarrow> val set" where
  "table_keys E key t =
     (case t of
        [] \<Rightarrow> {}
      | hdr # rows \<Rightarrow>
          (case keyfun E hdr key of Inl e \<Rightarrow> {} | Inr getkey \<Rightarrow> getkey ` set rows))"

text \<open>
  The field names of the key, and the non-key fields of a header in header order.
\<close>

definition key_fields :: "keyspec \<Rightarrow> string list" where
  "key_fields key = (case key of KField f \<Rightarrow> [f] | KFields fs \<Rightarrow> fs | KCallable g \<Rightarrow> [])"

definition value_fields :: "env \<Rightarrow> row \<Rightarrow> keyspec \<Rightarrow> string list" where
  "value_fields E hdr key = filter (\<lambda>f. f \<notin> set (key_fields key)) (map (text_type E) hdr)"



section \<open>Example data\<close>

text \<open>An environment without user functions, and a sort collaborator for sorted input.\<close>

definition env0 :: env where
  "env0 = \<lparr> user_call = (\<lambda>n x. Inl (UserError n)), str_of = (\<lambda>v. ''?''),
            set_iter = (\<lambda>S. []) \<rparr>"

definition sort_presorted :: sorter where
  "sort_presorted t key = Inr t"

text \<open>The table of the docstring of \<^verbatim>\<open>fold\<close>.\<close>

definition fold_table1 :: table where
  "fold_table1 =
     [[VStr ''id'', VStr ''count''],
      [VInt 1, VInt 3], [VInt 1, VInt 5], [VInt 2, VInt 4], [VInt 2, VInt 8]]"

text \<open>The first rows of the table of the docstring of \<^verbatim>\<open>aggregate\<close>.\<close>

definition aggregate_table1 :: table where
  "aggregate_table1 =
     [[VStr ''foo'', VStr ''bar''],
      [VStr ''a'', VInt 3], [VStr ''a'', VInt 7], [VStr ''b'', VInt 2]]"

text \<open>
  An unsorted table with integer keys, an order on integer keys, a sort collaborator
  that orders the data rows by the integer in their first column, and a reducer that
  sums the second column, as \<^verbatim>\<open>sumbar\<close> does in the docstring of \<^verbatim>\<open>rowreduce\<close>.
\<close>

definition rowreduce_table1 :: table where
  "rowreduce_table1 =
     [[VStr ''id'', VStr ''count''],
      [VInt 2, VInt 4], [VInt 1, VInt 3], [VInt 2, VInt 8], [VInt 1, VInt 5]]"

definition int_key_le :: "val \<Rightarrow> val \<Rightarrow> bool" where
  "int_key_le a b = (case (a, b) of (VInt x, VInt y) \<Rightarrow> x \<le> y | _ \<Rightarrow> False)"

definition sort_first_int :: sorter where
  "sort_first_int t key =
     (case t of
        [] \<Rightarrow> Inl StopIteration
      | hdr # rows \<Rightarrow>
          Inr (hdr # sort_key (\<lambda>r. case getitem_padded r 0 of VInt n \<Rightarrow> n | _ \<Rightarrow> 0) rows))"

definition sumcount :: reducer where
  "sumcount k rows =
     Inr [k, VInt (sum_list (map (\<lambda>r. case getitem_padded r 1 of VInt n \<Rightarrow> n | _ \<Rightarrow> 0) rows))]"


text \<open>An unsorted table with integer keys whose rows are to be merged.\<close>

definition merge_table2 :: table where
  "merge_table2 =
     [[VStr ''id'', VStr ''bar'', VStr ''baz''],
      [VInt 2, VInt 5, VNone],
      [VInt 1, VInt 1, VInt 27],
      [VInt 2, VNone, VInt 78],
      [VInt 1, VInt 2, VNone]]"

section \<open>Basic facts\<close>

lemmas eval_simps = ebind_def yield_def raise_def for_each_def iterpeek_def rowgroupby_def
  rowgroupby_value_def keyfun_def field_index_def getitem_padded_def

lemma ebind_Inl: "ebind (Inl e) f = Inl e"
  by (simp add: ebind_def)

lemma ebind_Inr: "ebind (Inr x) f = f x"
  by (simp add: ebind_def)

lemma emap_Inr_yield_each: "emap f xs = Inr ys \<Longrightarrow> yield_each f xs = (ys, None)"
  by (induction xs arbitrary: ys) (auto simp: yield_def split: sum.splits)

lemma yield_each_None_emap:
  "snd (yield_each f xs) = None \<Longrightarrow> emap f xs = Inr (fst (yield_each f xs))"
  by (induction xs) (auto simp: yield_def split: sum.splits)



lemma emap_length: "emap f xs = Inr ys \<Longrightarrow> length ys = length xs"
  by (induction xs arbitrary: ys) (auto split: sum.splits)


section \<open>Properties of the Conflict type\<close>

lemma fcard_one_singleton: "fcard A = 1 \<Longrightarrow> \<exists>v. A = {|v|}"
proof -
  assume "fcard A = 1"
  then have "card (fset A) = 1" by (simp add: fcard.rep_eq)
  then obtain v where "fset A = {v}" by (auto simp: card_1_singleton_iff)
  then have "fset A = fset {|v|}" by simp
  then have "A = {|v|}" by (simp only: fset_inject)
  then show ?thesis by blast
qed

text \<open>
  Claim C5. Equality of Conflict values is equality of their member sets, whatever the
  order the members were given in: \<^verbatim>\<open>Conflict({1,2}) == Conflict({2,1})\<close>. The engine
  builds no one-element Conflict: a set with one member collapses to that member, and
  a cell that is neither the missing sentinel nor a member of the collected set is the
  Conflict of that set, which then has at least two members.
\<close>

theorem conflict_set_equality:
  "Conflict {|VInt 1, VInt 2|} = Conflict {|VInt 2, VInt 1|}
   \<and> (Conflict A = Conflict B \<longleftrightarrow> fset A = fset B)
   \<and> (fcard vals = 1 \<longrightarrow> normedval missing vals |\<in>| vals)
   \<and> (normedval missing vals \<noteq> missing \<and> normedval missing vals |\<notin>| vals
        \<longrightarrow> normedval missing vals = Conflict vals \<and> 2 \<le> fcard vals)"
proof -
  have sym: "Conflict {|VInt 1, VInt 2|} = Conflict {|VInt 2, VInt 1|}"
    by (simp add: Conflict_def finsert_commute)
  have eq: "Conflict A = Conflict B \<longleftrightarrow> fset A = fset B"
    by (simp add: Conflict_def fset_inject)
  have one: "normedval missing vals |\<in>| vals" if "fcard vals = 1"
  proof -
    from that obtain v where "vals = {|v|}"
      using fcard_one_singleton by blast
    then show ?thesis by (simp add: normedval_def fcard_finsert_if)
  qed
  have many: "normedval missing vals = Conflict vals \<and> 2 \<le> fcard vals"
    if "normedval missing vals \<noteq> missing \<and> normedval missing vals |\<notin>| vals"
  proof -
    from that one have "fcard vals \<noteq> 1" by blast
    moreover have "fcard vals \<noteq> 0"
    proof
      assume "fcard vals = 0"
      then have "normedval missing vals = missing" by (simp add: normedval_def fcard_fempty)
      with that show False by simp
    qed
    ultimately have "2 \<le> fcard vals" and "normedval missing vals = Conflict vals"
      by (arith, simp add: normedval_def del: fcard_0_eq)
    then show ?thesis by simp
  qed
  from sym eq one many show ?thesis by blast
qed

theorem conflict_set_equality_witness:
  "normedval VNone {|VInt 5|} = VInt 5
   \<and> normedval VNone {|VInt 1, VInt 2|} = Conflict {|VInt 1, VInt 2|}
   \<and> Conflict {|VInt 1, VInt 2|} = Conflict {|VInt 2, VInt 1|}"
  using conflict_set_equality [of "{|VInt 1, VInt 2|}" "{|VInt 2, VInt 1|}" "{|VInt 5|}" VNone]
    conflict_set_equality [of "{|VInt 1, VInt 2|}" "{|VInt 2, VInt 1|}" "{|VInt 1, VInt 2|}" VNone]
  by (simp add: fcard_finsert_if normedval_def Conflict_def)

section \<open>Simple aggregate view\<close>

text \<open>
  Claim C7. The header that the simple aggregate view yields depends on the key
  specification only: for a compound key (a list or tuple of field names) it is the key
  fields followed by \<^verbatim>\<open>value\<close>; for a callable key it is \<^verbatim>\<open>('key', 'value')\<close>; for a single
  field name it is that name and \<^verbatim>\<open>value\<close>. It is yielded first, whatever the table,
  the aggregation function and the value specification are.
\<close>

theorem simple_aggregate_header:
  "fst (itersimpleaggregate E table (KFields fs) aggregation value) \<noteq> []
   \<and> hd (fst (itersimpleaggregate E table (KFields fs) aggregation value))
       = map VStr fs @ [VStr ''value'']
   \<and> fst (itersimpleaggregate E table (KCallable g) aggregation value) \<noteq> []
   \<and> hd (fst (itersimpleaggregate E table (KCallable g) aggregation value))
       = [VStr ''key'', VStr ''value'']
   \<and> fst (itersimpleaggregate E table (KField f) aggregation value) \<noteq> []
   \<and> hd (fst (itersimpleaggregate E table (KField f) aggregation value))
       = [VStr f, VStr ''value'']"
  by (simp add: itersimpleaggregate_def yield_def)



section \<open>The dispatch of aggregate\<close>

text \<open>
  Claim C9, as stated: every aggregation argument that is neither callable nor a list,
  tuple or dict makes \<^verbatim>\<open>aggregate\<close> raise. \<^verbatim>\<open>None\<close>, the default, is neither, and
  \<^verbatim>\<open>aggregate\<close> returns a view for it.
\<close>

theorem aggregate_none_counterexample:
  "\<not> callable VNone \<and> \<not> is_list_or_tuple VNone \<and> \<not> is_dict VNone
   \<and> \<not> isl (aggregate sort_presorted aggregate_table1 (KField ''foo'') VNone None False)"
  by (simp add: aggregate_def MultiAggregateView_def ebind_def sort_presorted_def)

text \<open>
  Claim C9, amended. Every aggregation argument that is neither callable, nor
  \<^verbatim>\<open>None\<close>, nor a list, tuple or dict makes \<^verbatim>\<open>aggregate\<close> itself raise: no view is
  built, and nothing is coerced.
\<close>

theorem aggregate_rejects_eagerly:
  "\<not> callable aggregation \<Longrightarrow> aggregation \<noteq> VNone \<Longrightarrow> \<not> is_list_or_tuple aggregation
   \<Longrightarrow> \<not> is_dict aggregation
   \<Longrightarrow> aggregate srt table key aggregation value presorted
       = Inl (PyException ''expected aggregation is callable, list, tuple, dict or None'')"
  by (simp add: aggregate_def)

theorem aggregate_rejects_eagerly_witness:
  "\<not> callable (VStr ''sum'') \<and> VStr ''sum'' \<noteq> VNone \<and> \<not> is_list_or_tuple (VStr ''sum'')
   \<and> \<not> is_dict (VStr ''sum'')
   \<and> aggregate sort_presorted aggregate_table1 (KField ''foo'') (VStr ''sum'') None False
       = Inl (PyException ''expected aggregation is callable, list, tuple, dict or None'')"
  using aggregate_rejects_eagerly [of "VStr ''sum''" sort_presorted aggregate_table1 "KField ''foo''" None False]
  by simp

text \<open>
  Claim C10. When the aggregation argument is \<^verbatim>\<open>None\<close>, a list, a tuple or a dict,
  \<^verbatim>\<open>aggregate\<close> ignores the value argument: two calls that differ in it only return
  the same view, whose iteration gives the same rows.
\<close>

theorem aggregate_ignores_value:
  "aggregation = VNone \<or> is_list_or_tuple aggregation \<or> is_dict aggregation
   \<Longrightarrow> aggregate srt table key aggregation value1 presorted
         = aggregate srt table key aggregation value2 presorted
       \<and> iter_aggregate E (aggregate srt table key aggregation value1 presorted)
         = iter_aggregate E (aggregate srt table key aggregation value2 presorted)"
  by (cases aggregation) (auto simp: aggregate_def)

theorem aggregate_ignores_value_witness:
  "is_dict (VDict [(VStr ''count'', VFun Len), (VStr ''bars'', VStr ''bar'')])
   \<and> iter_aggregate env0 (aggregate sort_presorted aggregate_table1 (KField ''foo'')
        (VDict [(VStr ''count'', VFun Len), (VStr ''bars'', VStr ''bar'')]) None True)
     = Inr ([[VStr ''foo'', VStr ''count'', VStr ''bars''],
             [VStr ''a'', VInt 2, VList [VInt 3, VInt 7]],
             [VStr ''b'', VInt 1, VList [VInt 2]]], None)
   \<and> iter_aggregate env0 (aggregate sort_presorted aggregate_table1 (KField ''foo'')
        (VDict [(VStr ''count'', VFun Len), (VStr ''bars'', VStr ''bar'')]) (Some (KField ''bar'')) True)
     = Inr ([[VStr ''foo'', VStr ''count'', VStr ''bars''],
             [VStr ''a'', VInt 2, VList [VInt 3, VInt 7]],
             [VStr ''b'', VInt 1, VList [VInt 2]]], None)"
proof -
  let ?agg = "VDict [(VStr ''count'', VFun Len), (VStr ''bars'', VStr ''bar'')]"
  have d: "is_dict ?agg" by simp
  have e: "iter_aggregate env0 (aggregate sort_presorted aggregate_table1 (KField ''foo'') ?agg None True)
     = Inr ([[VStr ''foo'', VStr ''count'', VStr ''bars''],
             [VStr ''a'', VInt 2, VList [VInt 3, VInt 7]],
             [VStr ''b'', VInt 1, VList [VInt 2]]], None)"
    by (simp add: iter_aggregate_def aggregate_def MultiAggregateView_def iter_MultiAggregateView_def
        itermultiaggregate_def normalise_aggregators_def normalise_def aggregate_field_def
        aggregate_table1_def env0_def eval_simps)
  from d e aggregate_ignores_value [of ?agg sort_presorted aggregate_table1 "KField ''foo''" None True
      "Some (KField ''bar'')" env0]
  show ?thesis by simp
qed

section \<open>Multi-aggregate view\<close>




section \<open>Fold view\<close>

lemma foldl_ebind_Inl: "foldl (\<lambda>r y. ebind r (\<lambda>a. f a y)) (Inl e) ys = Inl e"
  by (induction ys) (simp_all add: ebind_Inl)

lemma reduce_from_foldl:
  "reduce_from f acc xs = foldl (\<lambda>r y. ebind r (\<lambda>a. f a y)) (Inr acc) xs"
proof (induction xs arbitrary: acc)
  case Nil
  show ?case by simp
next
  case (Cons x xs)
  show ?case
  proof (cases "f acc x")
    case (Inl e)
    then show ?thesis by (simp add: ebind_Inl ebind_Inr foldl_ebind_Inl)
  next
    case (Inr a)
    then show ?thesis using Cons.IH [of a] by (simp add: ebind_Inr)
  qed
qed

text \<open>
  Claim C4. \<^verbatim>\<open>fold\<close> yields the header \<^verbatim>\<open>('key', 'value')\<close> first and then, for each
  group, the key paired with the reduction of the values of the group: strictly from
  left to right, starting with the first value and no initial value, so that a group of
  one value gives that value. On the presorted rows (1,3), (1,5), (2,4), (2,8), keyed on
  the first field, with addition over \<^verbatim>\<open>count\<close>, the result is (1,8), (2,12).
\<close>

theorem fold_left_to_right:
  "fst (iterfold E table key f value) \<noteq> []
   \<and> hd (fst (iterfold E table key f value)) = [VStr ''key'', VStr ''value'']
   \<and> py_reduce f [x] = Inr x
   \<and> py_reduce f (x # xs) = foldl (\<lambda>r y. ebind r (\<lambda>a. f a y)) (Inr x) xs
   \<and> (rowgroupby_value E t key value = Inr groups
        \<and> emap (\<lambda>(k, grp). ebind (py_reduce f grp) (\<lambda>v. Inr [k, v])) groups = Inr outrows
       \<longrightarrow> iterfold E (Inr t) key f value = ([VStr ''key'', VStr ''value''] # outrows, None))
   \<and> iterfold env0 (Inr fold_table1) (KField ''id'') operator_add (Some (KField ''count''))
       = ([[VStr ''key'', VStr ''value''], [VInt 1, VInt 8], [VInt 2, VInt 12]], None)"
proof -
  have hdr: "fst (iterfold E table key f value) \<noteq> []"
    "hd (fst (iterfold E table key f value)) = [VStr ''key'', VStr ''value'']"
    by (simp_all add: iterfold_def yield_def)
  have one: "py_reduce f [x] = Inr x" by simp
  have left: "py_reduce f (x # xs) = foldl (\<lambda>r y. ebind r (\<lambda>a. f a y)) (Inr x) xs"
    by (simp add: reduce_from_foldl)
  have rows: "iterfold E (Inr t) key f value = ([VStr ''key'', VStr ''value''] # outrows, None)"
    if "rowgroupby_value E t key value = Inr groups
        \<and> emap (\<lambda>(k, grp). ebind (py_reduce f grp) (\<lambda>v. Inr [k, v])) groups = Inr outrows"
    using that emap_Inr_yield_each [of _ groups outrows]
    by (simp add: iterfold_def for_each_def ebind_def yield_def)
  have ex: "iterfold env0 (Inr fold_table1) (KField ''id'') operator_add (Some (KField ''count''))
       = ([[VStr ''key'', VStr ''value''], [VInt 1, VInt 8], [VInt 2, VInt 12]], None)"
    by (simp add: iterfold_def fold_table1_def env0_def eval_simps)
  from hdr one left rows ex show ?thesis by blast
qed

theorem fold_left_to_right_witness:
  "rowgroupby_value env0 fold_table1 (KField ''id'') (Some (KField ''count''))
     = Inr [(VInt 1, [VInt 3, VInt 5]), (VInt 2, [VInt 4, VInt 8])]
   \<and> emap (\<lambda>(k, grp). ebind (py_reduce operator_add grp) (\<lambda>v. Inr [k, v]))
        [(VInt 1, [VInt 3, VInt 5]), (VInt 2, [VInt 4, VInt 8])]
     = Inr [[VInt 1, VInt 8], [VInt 2, VInt 12]]
   \<and> iterfold env0 (Inr fold_table1) (KField ''id'') operator_add (Some (KField ''count''))
     = ([[VStr ''key'', VStr ''value''], [VInt 1, VInt 8], [VInt 2, VInt 12]], None)"
proof -
  have g: "rowgroupby_value env0 fold_table1 (KField ''id'') (Some (KField ''count''))
     = Inr [(VInt 1, [VInt 3, VInt 5]), (VInt 2, [VInt 4, VInt 8])]"
    by (simp add: fold_table1_def env0_def eval_simps)
  have r: "emap (\<lambda>(k, grp). ebind (py_reduce operator_add grp) (\<lambda>v. Inr [k, v]))
        [(VInt 1, [VInt 3, VInt 5]), (VInt 2, [VInt 4, VInt 8])]
     = Inr [[VInt 1, VInt 8], [VInt 2, VInt 12]]"
    by (simp add: ebind_def)
  from g r fold_left_to_right [of env0 "Inr fold_table1" "KField ''id''" operator_add
      "Some (KField ''count'')" _ _ fold_table1
      "[(VInt 1, [VInt 3, VInt 5]), (VInt 2, [VInt 4, VInt 8])]"
      "[[VInt 1, VInt 8], [VInt 2, VInt 12]]"]
  show ?thesis by blast
qed

section \<open>Groups of a key-ordered table\<close>

lemma groupby_Nil_iff: "groupby kxs = [] \<longleftrightarrow> kxs = []"
  by (cases kxs) (auto split: list.splits if_splits)

lemma hd_groupby: "kxs \<noteq> [] \<Longrightarrow> fst (hd (groupby kxs)) = fst (hd kxs)"
  by (cases kxs) (auto split: list.splits)

lemma groupby_keys_Cons:
  "fst ` set (groupby ((k, x) # kxs)) = insert k (fst ` set (groupby kxs))"
  by (auto split: list.splits)

lemma groupby_keys_set: "fst ` set (groupby kxs) = fst ` set kxs"
proof (induction kxs)
  case Nil
  show ?case by simp
next
  case (Cons p kxs)
  obtain k x where "p = (k, x)" by (cases p)
  with Cons show ?case by (simp only: groupby_keys_Cons) simp
qed

lemma groupby_keys_sorted:
  "sorted_wrt le (map fst kxs) \<Longrightarrow> sorted_wrt le (map fst (groupby kxs))"
proof (induction kxs rule: groupby.induct)
  case 1
  show ?case by simp
next
  case (2 k x kxs)
  from 2 have s: "sorted_wrt le (map fst (groupby kxs))" by simp
  from 2 have all: "\<forall>k' \<in> fst ` set (groupby kxs). le k k'"
    by (simp add: groupby_keys_set)
  show ?case
  proof (cases "groupby kxs")
    case Nil
    then show ?thesis by simp
  next
    case (Cons p rest)
    with s all show ?thesis by (cases p) auto
  qed
qed

lemma groupby_keys_distinct:
  assumes "sorted_wrt le (map fst kxs)" and "antisymp_on (fst ` set kxs) le"
  shows "distinct (map fst (groupby kxs))"
  using assms
proof (induction kxs rule: groupby.induct)
  case 1
  show ?case by simp
next
  case (2 k x kxs)
  have s': "sorted_wrt le (map fst kxs)" using "2.prems"(1) by simp
  have a': "antisymp_on (fst ` set kxs) le"
    using "2.prems"(2) by (rule antisymp_on_subset) auto
  have d: "distinct (map fst (groupby kxs))"
    using s' a' by (rule "2.IH")
  have all: "\<forall>k' \<in> fst ` set kxs. le k k'" using "2.prems"(1) by simp
  show ?case
  proof (cases "groupby kxs")
    case Nil
    then show ?thesis by simp
  next
    case (Cons p rest)
    obtain k' g where p: "p = (k', g)" by (cases p)
    have "k' \<in> fst ` set (groupby kxs)" using Cons p by force
    then have k'_in: "k' \<in> fst ` set kxs" by (simp only: groupby_keys_set)
    have sorted_g: "sorted_wrt le (map fst (groupby kxs))"
      using s' by (rule groupby_keys_sorted)
    show ?thesis
    proof (cases "k' = k")
      case True
      with Cons p d show ?thesis by simp
    next
      case False
      have "k \<notin> fst ` set (groupby kxs)"
      proof
        assume kin: "k \<in> fst ` set (groupby kxs)"
        then have kin': "k \<in> fst ` set kxs" by (simp only: groupby_keys_set)
        from all k'_in have 1: "le k k'" by blast
        from kin Cons p False have "k \<in> fst ` set rest" by auto
        with sorted_g Cons p have 2: "le k' k" by auto
        from a' kin' k'_in 1 2 have "k = k'" by (rule antisymp_onD)
        with False show False by simp
      qed
      then have "k \<notin> set (map fst (groupby kxs))" by simp
      with Cons p d False show ?thesis by simp
    qed
  qed
qed

lemma groupby_length_card:
  assumes "sorted_wrt le (map fst kxs)" and "antisymp_on (fst ` set kxs) le"
  shows "length (groupby kxs) = card (fst ` set kxs)"
proof -
  have "length (groupby kxs) = length (map fst (groupby kxs))" by simp
  also have "\<dots> = card (set (map fst (groupby kxs)))"
    using groupby_keys_distinct [OF assms] by (simp only: distinct_card)
  also have "\<dots> = card (fst ` set kxs)"
    by (simp add: groupby_keys_set)
  finally show ?thesis .
qed

section \<open>Row-reduce view\<close>

text \<open>
  Claim C3. \<^verbatim>\<open>rowreduce\<close> yields one data row for each distinct key value of the table,
  whatever the order of its rows: when the table is not presorted it goes through the
  sort collaborator first, which hands over a key-ordered table with the same rows (a
  presorted table is key-ordered as it is). The groups have distinct keys, which are
  the keys of the table, and the data rows are the results of the reducer on them. The
  header is the field list of the caller, or else the header of the source.
\<close>

theorem rowreduce_one_row_per_key:
  assumes srt: "if presorted then key_ordered key_le E key table
                else sort_contract key_le E srt table key"
    and it: "iter_RowReduceView E (rowreduce srt table key reducer fields' presorted) = (out, None)"
  shows "out \<noteq> []
     \<and> hd out = (case fields' of Some fs \<Rightarrow> fs | None \<Rightarrow> hd table)
     \<and> length (tl out) = card (table_keys E key table)
     \<and> (\<exists>groups. distinct (map fst groups) \<and> fst ` set groups = table_keys E key table
          \<and> emap (\<lambda>(k, rows). reducer k rows) groups = Inr (tl out))"
proof -
  define src where "src = (if presorted then Inr table else srt table key)"
  have "\<exists>t'. src = Inr t' \<and> table \<noteq> [] \<and> t' \<noteq> [] \<and> hd t' = hd table
          \<and> mset (tl t') = mset (tl table) \<and> key_ordered key_le E key t'"
  proof (cases presorted)
    case True
    with srt have ko: "key_ordered key_le E key table" by simp
    then have "table \<noteq> []" by (auto simp: key_ordered_def)
    with True ko show ?thesis by (simp add: src_def)
  next
    case False
    with srt have "sort_contract key_le E srt table key" by simp
    with False show ?thesis
      by (auto simp: sort_contract_def src_def split: sum.splits)
  qed
  then obtain t' where t': "src = Inr t'" "table \<noteq> []" "t' \<noteq> []" "hd t' = hd table"
    "mset (tl t') = mset (tl table)" "key_ordered key_le E key t'" by blast
  obtain hdr rows' where t'_eq: "t' = hdr # rows'" using t'(3) by (cases t') auto
  obtain rows where table_eq: "table = hdr # rows" using t'(2,4) t'_eq by (cases table) auto
  from t'(6) t'_eq obtain getkey where gk: "keyfun E hdr key = Inr getkey"
    and sorted: "sorted_wrt key_le (map getkey rows')"
    and anti: "antisymp_on (getkey ` set rows') key_le"
    by (auto simp: key_ordered_def split: sum.splits)
  have set_rows: "set rows' = set rows"
    using t'(5) t'_eq table_eq by (auto dest: mset_eq_setD)
  define kxs where "kxs = map (\<lambda>r. (getkey r, r)) rows'"
  define groups where "groups = groupby kxs"
  define R where "R = (\<lambda>(k, rows). reducer k rows)"
  define fs where "fs = (case fields' of Some fs \<Rightarrow> fs | None \<Rightarrow> hdr)"
  have keys_kxs: "fst ` set kxs = getkey ` set rows'" by (auto simp: kxs_def image_iff)
  have map_kxs: "map fst kxs = map getkey rows'" by (simp add: kxs_def comp_def)
  have tk: "table_keys E key table = getkey ` set rows'"
    by (simp add: table_keys_def table_eq gk set_rows)
  have rg: "rowgroupby E t' key = Inr groups"
    by (simp add: rowgroupby_def t'_eq gk ebind_Inr groups_def kxs_def)
  have fe: "for_each (ebind (Inr t') (\<lambda>t. rowgroupby E t key)) R = yield_each R groups"
    by (simp add: ebind_Inr rg for_each_def)
  have "iterrowreduce E (Inr t') key reducer fields' = yield fs (yield_each R groups)"
  proof (cases fields')
    case None
    then show ?thesis
      using fe by (simp add: iterrowreduce_def iterpeek_def ebind_Inr t'_eq fs_def R_def)
  next
    case (Some a)
    then show ?thesis
      using fe by (simp add: iterrowreduce_def fs_def R_def)
  qed
  then have "iter_RowReduceView E (rowreduce srt table key reducer fields' presorted)
        = yield fs (yield_each R groups)"
    using t'(1)
    by (simp add: iter_RowReduceView_def rowreduce_def RowReduceView_def src_def)
  with it have y: "yield fs (yield_each R groups) = (out, None)" by simp
  then have out: "out = fs # fst (yield_each R groups)" and none: "snd (yield_each R groups) = None"
    by (auto simp: yield_def)
  from none have em: "emap R groups = Inr (tl out)"
    using yield_each_None_emap [of R groups] by (simp add: out)
  have dist: "distinct (map fst groups)"
    unfolding groups_def using sorted anti
    by (intro groupby_keys_distinct [where le = key_le]) (simp_all add: map_kxs keys_kxs)
  have keys: "fst ` set groups = table_keys E key table"
    by (simp add: groups_def groupby_keys_set keys_kxs tk)
  have len: "length (tl out) = card (table_keys E key table)"
  proof -
    have "length (tl out) = length groups" using em by (rule emap_length)
    also have "\<dots> = length (map fst groups)" by simp
    also have "\<dots> = card (set (map fst groups))" using dist by (simp only: distinct_card)
    also have "\<dots> = card (table_keys E key table)" using keys by simp
    finally show ?thesis .
  qed
  have hd: "hd out = (case fields' of Some fs \<Rightarrow> fs | None \<Rightarrow> hd table)"
    by (cases fields') (simp_all add: out fs_def table_eq)
  from out hd len dist keys em show ?thesis unfolding R_def by blast
qed


theorem rowreduce_one_row_per_key_witness:
  "sort_contract int_key_le env0 sort_first_int rowreduce_table1 (KField ''id'')
   \<and> iter_RowReduceView env0
        (rowreduce sort_first_int rowreduce_table1 (KField ''id'') sumcount None False)
       = ([[VStr ''id'', VStr ''count''], [VInt 1, VInt 8], [VInt 2, VInt 12]], None)
   \<and> table_keys env0 (KField ''id'') rowreduce_table1 = {VInt 1, VInt 2}
   \<and> length (tl [[VStr ''id'', VStr ''count''], [VInt 1, VInt 8], [VInt 2, VInt 12]])
       = card (table_keys env0 (KField ''id'') rowreduce_table1)"
proof -
  have c: "sort_contract int_key_le env0 sort_first_int rowreduce_table1 (KField ''id'')"
    by (simp add: sort_contract_def key_ordered_def sort_first_int_def rowreduce_table1_def
        int_key_le_def env0_def antisymp_on_def eval_simps)
  have i: "iter_RowReduceView env0
        (rowreduce sort_first_int rowreduce_table1 (KField ''id'') sumcount None False)
       = ([[VStr ''id'', VStr ''count''], [VInt 1, VInt 8], [VInt 2, VInt 12]], None)"
    by (simp add: iter_RowReduceView_def rowreduce_def RowReduceView_def iterrowreduce_def
        sort_first_int_def rowreduce_table1_def sumcount_def env0_def eval_simps)
  have k: "table_keys env0 (KField ''id'') rowreduce_table1 = {VInt 1, VInt 2}"
    by (auto simp: table_keys_def rowreduce_table1_def env0_def eval_simps)
  from c have c': "if False then key_ordered int_key_le env0 (KField ''id'') rowreduce_table1
      else sort_contract int_key_le env0 sort_first_int rowreduce_table1 (KField ''id'')"
    by simp
  from rowreduce_one_row_per_key [OF c' i] c i k show ?thesis by simp
qed

section \<open>Merge-duplicates view\<close>

lemma list_index_Inr: "list_index xs x = Inr i \<Longrightarrow> i < length xs \<and> xs ! i = x"
  by (induction xs arbitrary: i) (auto simp: ebind_def split: if_splits sum.splits)

lemma list_index_mem: "x \<in> set xs \<Longrightarrow> \<exists>i. list_index xs x = Inr i"
  by (induction xs) (auto simp: ebind_def)

lemma emap_nth: "emap f xs = Inr ys \<Longrightarrow> m < length xs \<Longrightarrow> f (xs ! m) = Inr (ys ! m)"
proof (induction xs arbitrary: ys m)
  case Nil
  then show ?case by simp
next
  case (Cons x xs)
  then show ?case by (cases m) (auto split: sum.splits)
qed


lemma py_set_Inr: "py_set vs = Inr F \<Longrightarrow> fset F = set vs \<and> (\<forall>v \<in> set vs. hashable v)"
  by (auto simp: py_set_def fset_of_list.rep_eq list_all_iff split: if_splits)


lemma emap_all_Inr: "(\<And>x. x \<in> set xs \<Longrightarrow> \<exists>y. f x = Inr y) \<Longrightarrow> \<exists>ys. emap f xs = Inr ys"
proof (induction xs)
  case Nil
  show ?case by simp
next
  case (Cons x xs)
  from Cons.prems [of x] obtain y where "f x = Inr y" by auto
  moreover from Cons obtain ys where "emap f xs = Inr ys" by auto
  ultimately show ?case by simp
qed

lemma value_field_indices:
  "\<exists>idxs. emap (list_index (map (text_type E) hdr)) (value_fields E hdr key) = Inr idxs"
  by (rule emap_all_Inr) (auto simp: value_fields_def intro: list_index_mem)

lemma itermergeduplicates_unfold:
  assumes "\<And>g. key \<noteq> KCallable g"
    and "emap (list_index (map (text_type E) hdr)) (value_fields E hdr key) = Inr idxs"
  shows "itermergeduplicates E (Inr (hdr # rows)) key missing
         = yield (map VStr (key_fields key @ value_fields E hdr key))
             (for_each (rowgroupby E (hdr # rows) key) (merge_group E key missing idxs))"
  using assms
  by (cases key)
    (auto simp: itermergeduplicates_def iterpeek_def ebind_Inr key_fields_def value_fields_def)

lemma itermergeduplicates_callable:
  "itermergeduplicates E (Inr (hdr # rows)) (KCallable g) missing = ([], Some TypeError)"
  by (simp add: itermergeduplicates_def iterpeek_def ebind_Inr raise_def)



lemma rowgroupby_compound_key:
  assumes "rowgroupby E (hdr # rows) (KFields fs) = Inr groups" and "j < length groups"
  shows "\<exists>ks. fst (groups ! j) = VTuple ks \<and> length ks = length fs"
proof -
  from assms(1) obtain idxs where ix: "emap (field_index E hdr) fs = Inr idxs"
    and g: "groups = groupby (map (\<lambda>r. (VTuple (map (getitem_padded r) idxs), r)) rows)"
    by (auto simp: rowgroupby_def keyfun_def ebind_def split: sum.splits)
  from assms(2) have "fst (groups ! j) \<in> fst ` set groups" by simp
  then have "fst (groups ! j) \<in> fst ` set (map (\<lambda>r. (VTuple (map (getitem_padded r) idxs), r)) rows)"
    by (simp only: g groupby_keys_set)
  then have "fst (groups ! j) \<in> (\<lambda>r. VTuple (map (getitem_padded r) idxs)) ` set rows"
    by (simp only: set_map image_image fst_conv)
  then obtain r where "fst (groups ! j) = VTuple (map (getitem_padded r) idxs)" by blast
  moreover have "length idxs = length fs" using ix by (rule emap_length)
  ultimately show ?thesis by simp
qed






section \<open>Merging a merged table again\<close>

lemma list_index_append:
  "list_index (a @ b) x =
     (if x \<in> set a then list_index a x else ebind (list_index b x) (\<lambda>i. Inr (length a + i)))"
proof (induction a)
  case Nil
  show ?case by (cases "list_index b x") (simp_all add: ebind_def)
next
  case (Cons y a)
  then show ?case
    by (cases "list_index b x") (auto simp: ebind_def split: sum.splits)
qed

lemma list_index_first:
  assumes "x \<in> set xs"
  obtains p where "p < length xs" and "list_index xs x = Inr p" and "xs ! p = x"
proof -
  from list_index_mem [OF assms] obtain p where p: "list_index xs x = Inr p" ..
  from list_index_Inr [OF p] have "p < length xs" and "xs ! p = x" by simp_all
  with p show thesis by (intro that)
qed

lemma emap_same_arg:
  assumes "emap f xs = Inr ys" and "p < length xs" and "m < length xs" and "xs ! p = xs ! m"
  shows "ys ! p = ys ! m"
proof -
  from assms(1,2) have "f (xs ! p) = Inr (ys ! p)" by (rule emap_nth)
  moreover from assms(1,3) have "f (xs ! m) = Inr (ys ! m)" by (rule emap_nth)
  ultimately show ?thesis using assms(4) by simp
qed

lemma emap_ex_nth:
  assumes "\<And>m. m < length xs \<Longrightarrow> \<exists>y. f (xs ! m) = Inr y \<and> g y = zs ! m"
    and "length zs = length xs"
  shows "\<exists>ys. emap f xs = Inr ys \<and> map g ys = zs"
  using assms
proof (induction xs arbitrary: zs)
  case Nil
  then show ?case by simp
next
  case (Cons x xs)
  from Cons.prems(2) obtain z zs' where zs: "zs = z # zs'" by (cases zs) auto
  from Cons.prems(1) [of 0] zs obtain y where y: "f x = Inr y" "g y = z" by auto
  have "\<exists>ys. emap f xs = Inr ys \<and> map g ys = zs'"
  proof (rule Cons.IH)
    fix m assume "m < length xs"
    then have "Suc m < length (x # xs)" by simp
    from Cons.prems(1) [OF this] zs
    show "\<exists>y. f (xs ! m) = Inr y \<and> g y = zs' ! m" by simp
  next
    from Cons.prems(2) zs show "length zs' = length xs" by simp
  qed
  then obtain ys where "emap f xs = Inr ys" "map g ys = zs'" by blast
  with y zs show ?case by simp
qed

lemma text_type_comp_VStr: "text_type E \<circ> VStr = (\<lambda>s. s)"
  by (rule ext) simp

lemma text_type_VStr: "map (text_type E) (map VStr xs) = xs"
  by (simp add: text_type_comp_VStr)

lemma value_fields_idem:
  "value_fields E (map VStr (key_fields key @ value_fields E hdr key)) key
   = value_fields E hdr key"
  by (simp add: value_fields_def text_type_comp_VStr filter_empty_conv)

lemma groupby_keys_distinct_adj: "distinct_adj (map fst (groupby kxs))"
proof (induction kxs rule: groupby.induct)
  case 1
  show ?case by simp
next
  case (2 k x kxs)
  then show ?case by (auto split: list.splits)
qed

lemma groupby_singletons:
  "distinct_adj (map fst kxs) \<Longrightarrow> groupby kxs = map (\<lambda>(k, x). (k, [x])) kxs"
proof (induction kxs rule: groupby.induct)
  case 1
  show ?case by simp
next
  case (2 k x kxs)
  then show ?case by (cases kxs) (auto simp: distinct_adj_Cons split: list.splits)
qed

lemma normedval_hashable:
  assumes "py_set vs = Inr F" and "normedval missing F \<noteq> missing"
  shows "hashable (normedval missing F)"
proof (cases "fcard F = 1")
  case True
  then obtain v where F: "F = {|v|}" using fcard_one_singleton by blast
  with assms(1) have "v \<in> set vs" using py_set_Inr [of vs F] by auto
  with assms(1) have "hashable v" using py_set_Inr [of vs F] by blast
  with F show ?thesis by (simp add: normedval_def fcard_finsert_if)
next
  case False
  with assms(2) show ?thesis
    by (auto simp: normedval_def Conflict_def split: if_splits)
qed

lemma py_set_one: "hashable c \<Longrightarrow> py_set [c] = Inr {|c|}"
  by (simp add: py_set_def)

lemma normedval_one: "normedval missing {|c|} = c"
  by (simp add: normedval_def fcard_finsert_if)

lemma normedval_none: "normedval missing {||} = missing"
  by (simp add: normedval_def fcard_fempty)

lemma emap_nth_intro:
  assumes "length ys = length xs" and "\<And>j. j < length xs \<Longrightarrow> f (xs ! j) = Inr (ys ! j)"
  shows "emap f xs = Inr ys"
proof -
  have "\<exists>ys'. emap f xs = Inr ys' \<and> map (\<lambda>y. y) ys' = ys"
    using assms by (intro emap_ex_nth) auto
  then show ?thesis by simp
qed

lemma merge_singleton_cells:
  assumes mv: "mergedvals missing grp idxs = Inr mvs"
    and idxs: "emap (list_index flds) vf = Inr idxs"
    and idxs2: "emap (list_index (kn @ vf)) vf = Inr idxs2"
    and disj: "\<And>f. f \<in> set vf \<Longrightarrow> f \<notin> set kn"
    and len: "length kcells = length kn"
  shows "\<exists>mvs2. mergedvals missing [kcells @ map (normedval missing) mvs] idxs2 = Inr mvs2
           \<and> map (normedval missing) mvs2 = map (normedval missing) mvs"
proof -
  let ?cells = "map (normedval missing) mvs"
  let ?y = "kcells @ ?cells"
  let ?collect = "\<lambda>g i. py_set (map (\<lambda>row. row ! i)
                         (filter (\<lambda>row. length row > i \<and> row ! i \<noteq> missing) g))"
  have len_idxs: "length idxs = length vf" using idxs by (rule emap_length)
  have len_idxs2: "length idxs2 = length vf" using idxs2 by (rule emap_length)
  have mv': "emap (?collect grp) idxs = Inr mvs" using mv by (simp add: mergedvals_def)
  have len_mvs: "length mvs = length idxs" using mv' by (rule emap_length)
  have "\<exists>mvs2. emap (?collect [?y]) idxs2 = Inr mvs2 \<and> map (normedval missing) mvs2 = ?cells"
  proof (rule emap_ex_nth)
    show "length ?cells = length idxs2" by (simp add: len_mvs len_idxs len_idxs2)
  next
    fix m assume "m < length idxs2"
    then have m: "m < length vf" by (simp add: len_idxs2)
    then have mem: "vf ! m \<in> set vf" by simp
    then obtain q where q: "q < length vf" "list_index vf (vf ! m) = Inr q" "vf ! q = vf ! m"
      by (rule list_index_first)
    from idxs2 m have "list_index (kn @ vf) (vf ! m) = Inr (idxs2 ! m)" by (rule emap_nth)
    with disj [OF mem] q(2) have i2: "idxs2 ! m = length kn + q"
      by (simp add: list_index_append ebind_Inr)
    have iq: "idxs ! q = idxs ! m" using idxs q(1) m q(3) by (rule emap_same_arg)
    have mq: "mvs ! q = mvs ! m"
      using mv' _ _ iq by (rule emap_same_arg) (simp_all add: len_idxs q(1) m)
    have cell: "?y ! (idxs2 ! m) = ?cells ! m"
      using q(1) m mq by (simp add: i2 len [symmetric] len_mvs len_idxs)
    have lt: "idxs2 ! m < length ?y"
      using q(1) by (simp add: i2 len len_mvs len_idxs)
    have ps: "?collect grp (idxs ! m) = Inr (mvs ! m)"
      using mv' by (rule emap_nth) (simp add: len_idxs m)
    have cm: "?cells ! m = normedval missing (mvs ! m)"
      using m by (simp add: len_mvs len_idxs)
    show "\<exists>F. ?collect [?y] (idxs2 ! m) = Inr F \<and> normedval missing F = ?cells ! m"
    proof (cases "?cells ! m = missing")
      case True
      with cell have "?collect [?y] (idxs2 ! m) = Inr {||}" by (simp add: py_set_def)
      with True show ?thesis by (simp add: normedval_none)
    next
      case False
      with cm have "hashable (?cells ! m)"
        using normedval_hashable [OF ps] by simp
      with False cell lt have "?collect [?y] (idxs2 ! m) = Inr {|?cells ! m|}"
        by (simp add: py_set_def)
      then show ?thesis by (simp add: normedval_one)
    qed
  qed
  then show ?thesis by (simp add: mergedvals_def)
qed

lemma field_index_VStr:
  assumes f: "f \<in> set kn"
  shows "field_index E (map VStr (kn @ vf)) f = list_index kn f"
proof -
  from f obtain p where p: "list_index kn f = Inr p" by (rule list_index_first)
  have 1: "map (text_type E) (map VStr (kn @ vf)) = kn @ vf" by (rule text_type_VStr)
  have 2: "list_index (kn @ vf) f = list_index kn f"
    using f by (simp only: list_index_append if_True)
  show ?thesis
    unfolding field_index_def 1 2 p by simp
qed

lemma second_pass_key_field:
  "keyfun E (map VStr ([f] @ vf)) (KField f) = Inr (\<lambda>r. getitem_padded r 0)"
proof -
  have "field_index E (map VStr ([f] @ vf)) f = list_index [f] f"
    by (rule field_index_VStr) simp
  then have "field_index E (map VStr ([f] @ vf)) f = Inr 0" by (simp add: ebind_def)
  then show ?thesis unfolding keyfun_def by (simp only: keyspec.case ebind_Inr)
qed

lemma second_pass_key_fields:
  assumes ix: "emap (field_index E hdr) fs = Inr idxk"
  shows "\<exists>idxk2. emap (field_index E (map VStr (fs @ vf))) fs = Inr idxk2
          \<and> (\<forall>r cells. map (getitem_padded (map (getitem_padded r) idxk @ cells)) idxk2
                          = map (getitem_padded r) idxk)"
proof -
  have len: "length idxk = length fs" using ix by (rule emap_length)
  have "\<exists>idxk2. emap (field_index E (map VStr (fs @ vf))) fs = Inr idxk2"
  proof (rule emap_all_Inr)
    fix f assume "f \<in> set fs"
    then show "\<exists>y. field_index E (map VStr (fs @ vf)) f = Inr y"
      using list_index_mem [of f fs] by (simp only: field_index_VStr)
  qed
  then obtain idxk2 where ix2: "emap (field_index E (map VStr (fs @ vf))) fs = Inr idxk2"
    by blast
  have len2: "length idxk2 = length fs" using ix2 by (rule emap_length)
  have "map (getitem_padded (map (getitem_padded r) idxk @ cells)) idxk2
          = map (getitem_padded r) idxk" for r cells
  proof (rule nth_equalityI)
    show "length (map (getitem_padded (map (getitem_padded r) idxk @ cells)) idxk2)
        = length (map (getitem_padded r) idxk)" by (simp add: len len2)
  next
    fix m assume "m < length (map (getitem_padded (map (getitem_padded r) idxk @ cells)) idxk2)"
    then have m: "m < length fs" by (simp add: len2)
    then have mem: "fs ! m \<in> set fs" by simp
    from ix2 m have "field_index E (map VStr (fs @ vf)) (fs ! m) = Inr (idxk2 ! m)"
      by (rule emap_nth)
    with mem have li: "list_index fs (fs ! m) = Inr (idxk2 ! m)"
      by (simp only: field_index_VStr)
    have p: "idxk2 ! m < length fs" "fs ! (idxk2 ! m) = fs ! m"
      using list_index_Inr [OF li] by simp_all
    have same: "idxk ! (idxk2 ! m) = idxk ! m"
      using ix p(1) m p(2) by (rule emap_same_arg)
    show "map (getitem_padded (map (getitem_padded r) idxk @ cells)) idxk2 ! m
        = map (getitem_padded r) idxk ! m"
      using m p(1) same
      by (simp add: len len2 getitem_padded_def nth_append)
  qed
  with ix2 show ?thesis by blast
qed

lemma second_pass_groups:
  assumes gk: "keyfun E hdr2 key = Inr getkey2"
    and len: "length ys = length groups"
    and keys: "\<And>j. j < length ys \<Longrightarrow> getkey2 (ys ! j) = fst (groups ! j)"
    and adj: "distinct_adj (map fst groups)"
  shows "rowgroupby E (hdr2 # ys) key = Inr (map (\<lambda>(g, y). (fst g, [y])) (zip groups ys))"
proof -
  have kxs: "map (\<lambda>r. (getkey2 r, r)) ys = map (\<lambda>(g, y). (fst g, y)) (zip groups ys)"
    by (rule nth_equalityI) (simp_all add: len keys)
  have "map fst (map (\<lambda>(g, y). (fst g, y)) (zip groups ys)) = map fst groups"
    by (rule nth_equalityI) (simp_all add: len)
  with adj have "distinct_adj (map fst (map (\<lambda>(g, y). (fst g, y)) (zip groups ys)))"
    by simp
  then have "groupby (map (\<lambda>(g, y). (fst g, y)) (zip groups ys))
      = map (\<lambda>(k, x). (k, [x])) (map (\<lambda>(g, y). (fst g, y)) (zip groups ys))"
    by (rule groupby_singletons)
  also have "\<dots> = map (\<lambda>(g, y). (fst g, [y])) (zip groups ys)"
    by (simp add: case_prod_beta comp_def)
  finally show ?thesis
    by (simp add: rowgroupby_def gk ebind_Inr kxs)
qed

lemma merge_group_second:
  assumes mg: "merge_group E key missing idxs (k, grp) = Inr y"
    and idxs: "emap (list_index flds) vf = Inr idxs"
    and idxs2: "emap (list_index (key_fields key @ vf)) vf = Inr idxs2"
    and disj: "\<And>f. f \<in> set vf \<Longrightarrow> f \<notin> set (key_fields key)"
    and klen: "\<And>fs. key = KFields fs \<Longrightarrow> \<exists>ks. k = VTuple ks \<and> length ks = length fs"
    and nc: "\<And>g. key \<noteq> KCallable g"
  shows "merge_group E key missing idxs2 (k, [y]) = Inr y"
proof -
  let ?kc = "case key of KField f \<Rightarrow> Inr [k] | _ \<Rightarrow> py_iter E k"
  from mg obtain kcells mvs where kc: "?kc = Inr kcells"
    and mv: "mergedvals missing grp idxs = Inr mvs"
    and y: "y = kcells @ map (normedval missing) mvs"
    by (auto simp: merge_group_def ebind_def split: sum.splits)
  have len: "length kcells = length (key_fields key)"
  proof (cases key)
    case (KField f)
    with kc show ?thesis by (auto simp: key_fields_def)
  next
    case (KFields fs)
    with klen obtain ks where "k = VTuple ks" "length ks = length fs" by blast
    with kc KFields show ?thesis by (auto simp: key_fields_def)
  next
    case (KCallable g)
    with nc show ?thesis by blast
  qed
  from merge_singleton_cells [OF mv idxs idxs2 disj len]
  obtain mvs2 where mv2: "mergedvals missing [y] idxs2 = Inr mvs2"
    and cells: "map (normedval missing) mvs2 = map (normedval missing) mvs"
    unfolding y by blast
  have "merge_group E key missing idxs2 (k, [y])
      = Inr (kcells @ map (normedval missing) mvs2)"
    by (simp add: merge_group_def kc mv2 ebind_Inr)
  then show ?thesis by (simp only: cells y)
qed

lemma second_pass_getkey:
  assumes gk: "keyfun E hdr key = Inr getkey"
    and nc: "\<And>g. key \<noteq> KCallable g"
  shows "\<exists>getkey2. keyfun E (map VStr (key_fields key @ vf)) key = Inr getkey2
           \<and> (\<forall>r grp y. merge_group E key missing idxs (getkey r, grp) = Inr y
                 \<longrightarrow> getkey2 y = getkey r)"
proof (cases key)
  case (KField f)
  have k2: "keyfun E (map VStr (key_fields key @ vf)) key = Inr (\<lambda>r. getitem_padded r 0)"
    unfolding KField key_fields_def keyspec.case by (rule second_pass_key_field)
  have "getitem_padded y 0 = getkey r"
    if "merge_group E key missing idxs (getkey r, grp) = Inr y" for r grp y
    using that KField
    by (auto simp: merge_group_def ebind_def getitem_padded_def split: sum.splits)
  with k2 show ?thesis by blast
next
  case (KFields fs)
  with gk obtain idxk where ix: "emap (field_index E hdr) fs = Inr idxk"
    and getkey: "getkey = (\<lambda>r. VTuple (map (getitem_padded r) idxk))"
    by (auto simp: keyfun_def ebind_def split: sum.splits)
  from second_pass_key_fields [OF ix, of vf] obtain idxk2 where
    ix2: "emap (field_index E (map VStr (fs @ vf))) fs = Inr idxk2"
    and same: "\<And>r cells. map (getitem_padded (map (getitem_padded r) idxk @ cells)) idxk2
                          = map (getitem_padded r) idxk"
    by blast
  have k2: "keyfun E (map VStr (key_fields key @ vf)) key
      = Inr (\<lambda>r. VTuple (map (getitem_padded r) idxk2))"
    unfolding KFields key_fields_def keyspec.case keyfun_def ix2 ebind_Inr ..
  have "VTuple (map (getitem_padded y) idxk2) = getkey r"
    if "merge_group E key missing idxs (getkey r, grp) = Inr y" for r grp y
  proof -
    from that KFields obtain cells where "y = map (getitem_padded r) idxk @ cells"
      by (auto simp: merge_group_def ebind_def getkey split: sum.splits)
    then show ?thesis by (simp only: same getkey)
  qed
  with k2 show ?thesis by blast
next
  case (KCallable g)
  with nc show ?thesis by blast
qed

lemma first_pass_structure:
  assumes it: "itermergeduplicates E (Inr (hdr # rows)) key missing = (out, None)"
  shows "\<exists>getkey getkey2 ys.
           keyfun E hdr key = Inr getkey
           \<and> out = map VStr (key_fields key @ value_fields E hdr key) # ys
           \<and> keyfun E (map VStr (key_fields key @ value_fields E hdr key)) key = Inr getkey2
           \<and> map getkey2 ys = map fst (groupby (map (\<lambda>r. (getkey r, r)) rows))
           \<and> itermergeduplicates E (Inr out) key missing = (out, None)"
proof -
  define kn where "kn = key_fields key"
  define vf where "vf = value_fields E hdr key"
  define hdr2 where "hdr2 = map VStr (kn @ vf)"
  have nc: "key \<noteq> KCallable g" for g
    using it by (auto simp: itermergeduplicates_callable)
  obtain idxs where idxs: "emap (list_index (map (text_type E) hdr)) vf = Inr idxs"
    unfolding vf_def using value_field_indices by blast
  define MG where "MG = merge_group E key missing idxs"
  have unfold1: "itermergeduplicates E (Inr (hdr # rows)) key missing
      = yield hdr2 (for_each (rowgroupby E (hdr # rows) key) MG)"
    unfolding MG_def hdr2_def kn_def vf_def
    using nc idxs [unfolded vf_def] by (rule itermergeduplicates_unfold)
  obtain groups where rg: "rowgroupby E (hdr # rows) key = Inr groups"
  proof (cases "rowgroupby E (hdr # rows) key")
    case (Inl e)
    with it unfold1 show ?thesis by (simp add: for_each_def raise_def yield_def)
  next
    case (Inr groups)
    with that show ?thesis by blast
  qed
  then obtain getkey where gk: "keyfun E hdr key = Inr getkey"
    and groups: "groups = groupby (map (\<lambda>r. (getkey r, r)) rows)"
    by (auto simp: rowgroupby_def ebind_def split: sum.splits)
  define ys where "ys = fst (yield_each MG groups)"
  from it unfold1 rg have out: "out = hdr2 # ys" and none: "snd (yield_each MG groups) = None"
    by (auto simp: for_each_def yield_def ys_def)
  from none have em: "emap MG groups = Inr ys"
    unfolding ys_def by (rule yield_each_None_emap)
  have len: "length ys = length groups" using em by (rule emap_length)
  have mgj: "MG (groups ! j) = Inr (ys ! j)" if "j < length groups" for j
    using em that by (rule emap_nth)
  have keyj: "\<exists>r. fst (groups ! j) = getkey r" if "j < length groups" for j
  proof -
    from that have "fst (groups ! j) \<in> fst ` set groups" by simp
    then have "fst (groups ! j) \<in> fst ` set (map (\<lambda>r. (getkey r, r)) rows)"
      by (simp only: groups groupby_keys_set)
    then have "fst (groups ! j) \<in> getkey ` set rows"
      by (simp only: set_map image_image fst_conv)
    then show ?thesis by blast
  qed
  from second_pass_getkey [OF gk nc, of vf missing idxs] obtain getkey2 where
    gk2: "keyfun E hdr2 key = Inr getkey2"
    and key2: "\<And>r grp y. merge_group E key missing idxs (getkey r, grp) = Inr y
                 \<Longrightarrow> getkey2 y = getkey r"
    unfolding hdr2_def kn_def by blast
  have keys2: "getkey2 (ys ! j) = fst (groups ! j)" if "j < length ys" for j
  proof -
    from that len have j: "j < length groups" by simp
    from keyj [OF j] obtain r where r: "fst (groups ! j) = getkey r" by blast
    have "MG (getkey r, snd (groups ! j)) = Inr (ys ! j)"
      using mgj [OF j] r by (metis prod.collapse)
    then have "getkey2 (ys ! j) = getkey r" unfolding MG_def by (rule key2)
    with r show ?thesis by simp
  qed
  have adj: "distinct_adj (map fst groups)"
    unfolding groups by (rule groupby_keys_distinct_adj)
  define groups2 where "groups2 = map (\<lambda>(g, y). (fst g, [y])) (zip groups ys)"
  have rg2: "rowgroupby E (hdr2 # ys) key = Inr groups2"
    unfolding groups2_def using gk2 len keys2 adj by (rule second_pass_groups)
  have vf2: "value_fields E hdr2 key = vf"
    unfolding hdr2_def kn_def vf_def by (rule value_fields_idem)
  have flds2: "map (text_type E) hdr2 = kn @ vf"
    unfolding hdr2_def by (rule text_type_VStr)
  obtain idxs2 where idxs2: "emap (list_index (kn @ vf)) vf = Inr idxs2"
    using value_field_indices [of E hdr2 key] unfolding vf2 flds2 by blast
  define MG2 where "MG2 = merge_group E key missing idxs2"
  have unfold2: "itermergeduplicates E (Inr (hdr2 # ys)) key missing
      = yield hdr2 (for_each (rowgroupby E (hdr2 # ys) key) MG2)"
  proof -
    have "emap (list_index (map (text_type E) hdr2)) (value_fields E hdr2 key) = Inr idxs2"
      unfolding vf2 flds2 by (rule idxs2)
    with nc have "itermergeduplicates E (Inr (hdr2 # ys)) key missing
      = yield (map VStr (key_fields key @ value_fields E hdr2 key))
          (for_each (rowgroupby E (hdr2 # ys) key) (merge_group E key missing idxs2))"
      by (rule itermergeduplicates_unfold)
    moreover have "map VStr (key_fields key @ value_fields E hdr2 key) = hdr2"
      unfolding vf2 unfolding hdr2_def kn_def ..
    ultimately show ?thesis by (simp only: MG2_def)
  qed
  have disj: "f \<notin> set (key_fields key)" if "f \<in> set vf" for f
    using that by (simp add: vf_def value_fields_def)
  have em2: "emap MG2 groups2 = Inr ys"
  proof (rule emap_nth_intro)
    show "length ys = length groups2" by (simp add: groups2_def len)
  next
    fix j assume "j < length groups2"
    then have j: "j < length groups" by (simp add: groups2_def len)
    then have g2: "groups2 ! j = (fst (groups ! j), [ys ! j])"
      by (simp add: groups2_def len)
    from keyj [OF j] obtain r where r: "fst (groups ! j) = getkey r" by blast
    have klen: "\<exists>ks. fst (groups ! j) = VTuple ks \<and> length ks = length fs"
      if "key = KFields fs" for fs
      using rg j unfolding that by (rule rowgroupby_compound_key)
    have mg: "merge_group E key missing idxs (fst (groups ! j), snd (groups ! j)) = Inr (ys ! j)"
      using mgj [OF j] by (simp add: MG_def)
    show "MG2 (groups2 ! j) = Inr (ys ! j)"
      unfolding MG2_def g2
      using mg idxs idxs2 [unfolded kn_def] disj klen nc by (rule merge_group_second)
  qed
  then have "yield_each MG2 groups2 = (ys, None)" by (rule emap_Inr_yield_each)
  with unfold2 rg2 have "itermergeduplicates E (Inr (hdr2 # ys)) key missing = (hdr2 # ys, None)"
    by (simp add: for_each_def yield_def)
  then have idem: "itermergeduplicates E (Inr out) key missing = (out, None)"
    by (simp only: out)
  have keys: "map getkey2 ys = map fst (groupby (map (\<lambda>r. (getkey r, r)) rows))"
    unfolding groups [symmetric]
    by (rule nth_equalityI) (simp_all add: len keys2)
  from gk out gk2 keys idem show ?thesis
    unfolding hdr2_def kn_def vf_def by blast
qed

lemma sorted_by_distinct_key_unique:
  assumes "sorted_wrt le (map g xs)" and "sorted_wrt le (map g ys)" and "mset xs = mset ys"
    and "distinct (map g xs)" and "antisymp_on (g ` set xs) le"
  shows "xs = ys"
  using assms
proof (induction xs arbitrary: ys)
  case Nil
  then show ?case by simp
next
  case (Cons x xs)
  from Cons.prems(3) have "ys \<noteq> []" by auto
  then obtain y ys' where ys: "ys = y # ys'" by (cases ys) auto
  have sets: "set (x # xs) = set ys" using Cons.prems(3) by (rule mset_eq_setD)
  have xy: "x = y"
  proof (rule ccontr)
    assume neq: "x \<noteq> y"
    from sets ys neq have x_in: "x \<in> set ys'" by auto
    from sets ys neq have y_in: "y \<in> set xs" by auto
    from Cons.prems(2) ys x_in have 1: "le (g y) (g x)" by auto
    from Cons.prems(1) y_in have 2: "le (g x) (g y)" by auto
    have "g x \<in> g ` set (x # xs)" and "g y \<in> g ` set (x # xs)" using y_in by auto
    with Cons.prems(5) 1 2 have "g x = g y" by (auto dest: antisymp_onD)
    with Cons.prems(4) y_in show False by auto
  qed
  have "xs = ys'"
  proof (rule Cons.IH)
    show "sorted_wrt le (map g xs)" using Cons.prems(1) by simp
    show "sorted_wrt le (map g ys')" using Cons.prems(2) ys by simp
    show "mset xs = mset ys'" using Cons.prems(3) ys xy by simp
    show "distinct (map g xs)" using Cons.prems(4) by simp
    show "antisymp_on (g ` set xs) le"
      using Cons.prems(5) by (rule antisymp_on_subset) auto
  qed
  with xy ys show ?case by simp
qed

lemma itermergeduplicates_nonempty:
  "itermergeduplicates E (Inr t) key missing = (out, None) \<Longrightarrow> t \<noteq> []"
  by (auto simp: itermergeduplicates_def iterpeek_def ebind_def raise_def)

text \<open>
  Claim C2. Applying \<^verbatim>\<open>mergeduplicates\<close> to its own output, with the same key, missing
  sentinel and sort policy, gives that output again: when the first iteration completes
  with the rows \<open>out\<close>, so does the second, with the same rows. After the first pass
  adjacent rows have different keys, so every group of the second pass is one row, and a
  cell that is one value or the missing sentinel merges to itself. When the tables go
  through the sort collaborator, its contract is assumed for both calls.
\<close>

theorem mergeduplicates_idempotent:
  assumes it: "iter_MergeDuplicatesView E (mergeduplicates srt table key missing presorted)
      = (out, None)"
    and srt: "\<not> presorted \<longrightarrow>
      sort_contract key_le E srt table key \<and> sort_contract key_le E srt out key"
  shows "iter_MergeDuplicatesView E (mergeduplicates srt out key missing presorted)
      = (out, None)"
proof (cases presorted)
  case True
  with it have 1: "itermergeduplicates E (Inr table) key missing = (out, None)"
    by (simp add: iter_MergeDuplicatesView_def mergeduplicates_def MergeDuplicatesView_def)
  then have "table \<noteq> []" by (rule itermergeduplicates_nonempty)
  then obtain hdr rows where "table = hdr # rows" by (cases table) auto
  with 1 first_pass_structure [of E hdr rows key missing out]
  have "itermergeduplicates E (Inr out) key missing = (out, None)" by blast
  with True show ?thesis
    by (simp add: iter_MergeDuplicatesView_def mergeduplicates_def MergeDuplicatesView_def)
next
  case False
  with srt have c1: "sort_contract key_le E srt table key"
    and c2: "sort_contract key_le E srt out key" by simp_all
  from c1 obtain t' where t': "srt table key = Inr t'" "t' \<noteq> []"
    "key_ordered key_le E key t'"
    by (auto simp: sort_contract_def split: sum.splits)
  obtain hdr rows where t'_eq: "t' = hdr # rows" using t'(2) by (cases t') auto
  from it False t'(1) have 1: "itermergeduplicates E (Inr (hdr # rows)) key missing = (out, None)"
    by (simp add: iter_MergeDuplicatesView_def mergeduplicates_def MergeDuplicatesView_def t'_eq)
  from first_pass_structure [OF 1] obtain getkey getkey2 ys where
    gk: "keyfun E hdr key = Inr getkey"
    and out: "out = map VStr (key_fields key @ value_fields E hdr key) # ys"
    and gk2: "keyfun E (map VStr (key_fields key @ value_fields E hdr key)) key = Inr getkey2"
    and keys: "map getkey2 ys = map fst (groupby (map (\<lambda>r. (getkey r, r)) rows))"
    and idem: "itermergeduplicates E (Inr out) key missing = (out, None)"
    by blast
  let ?kxs = "map (\<lambda>r. (getkey r, r)) rows"
  have map_kxs: "map fst ?kxs = map getkey rows" by (simp add: comp_def)
  have set_kxs: "fst ` set ?kxs = getkey ` set rows" by (simp add: image_image)
  from t'(3) gk have sorted1: "sorted_wrt key_le (map getkey rows)"
    and anti1: "antisymp_on (getkey ` set rows) key_le"
    by (simp_all add: key_ordered_def t'_eq)
  have sorted_ys: "sorted_wrt key_le (map getkey2 ys)"
    unfolding keys using sorted1 by (intro groupby_keys_sorted) (simp only: map_kxs)
  have distinct_ys: "distinct (map getkey2 ys)"
    unfolding keys using sorted1 anti1
    by (intro groupby_keys_distinct [where le = key_le]) (simp_all only: map_kxs set_kxs)
  from c2 obtain out' where out': "srt out key = Inr out'" "out' \<noteq> []" "hd out' = hd out"
    "mset (tl out') = mset (tl out)" "key_ordered key_le E key out'"
    by (auto simp: sort_contract_def split: sum.splits)
  obtain ys' where out'_eq: "out' = map VStr (key_fields key @ value_fields E hdr key) # ys'"
    using out'(2,3) out by (cases out') auto
  from out'(4) out out'_eq have ms: "mset ys = mset ys'" by simp
  then have sets: "set ys = set ys'" by (rule mset_eq_setD)
  from out'(5) gk2 have sorted2: "sorted_wrt key_le (map getkey2 ys')"
    and anti2: "antisymp_on (getkey2 ` set ys') key_le"
    by (simp_all add: key_ordered_def out'_eq)
  have "ys = ys'"
    using sorted_ys sorted2 ms distinct_ys anti2 [folded sets]
    by (rule sorted_by_distinct_key_unique)
  with out out'_eq have "out' = out" by simp
  with out'(1) idem False show ?thesis
    by (simp add: iter_MergeDuplicatesView_def mergeduplicates_def MergeDuplicatesView_def)
qed

theorem mergeduplicates_idempotent_witness:
  "sort_contract int_key_le env0 sort_first_int merge_table2 (KField ''id'')
   \<and> sort_contract int_key_le env0 sort_first_int
        [[VStr ''id'', VStr ''bar'', VStr ''baz''],
         [VInt 1, Conflict {|VInt 1, VInt 2|}, VInt 27],
         [VInt 2, VInt 5, VInt 78]] (KField ''id'')
   \<and> iter_MergeDuplicatesView env0
        (mergeduplicates sort_first_int merge_table2 (KField ''id'') VNone False)
       = ([[VStr ''id'', VStr ''bar'', VStr ''baz''],
           [VInt 1, Conflict {|VInt 1, VInt 2|}, VInt 27],
           [VInt 2, VInt 5, VInt 78]], None)
   \<and> iter_MergeDuplicatesView env0
        (mergeduplicates sort_first_int
           [[VStr ''id'', VStr ''bar'', VStr ''baz''],
            [VInt 1, Conflict {|VInt 1, VInt 2|}, VInt 27],
            [VInt 2, VInt 5, VInt 78]] (KField ''id'') VNone False)
       = ([[VStr ''id'', VStr ''bar'', VStr ''baz''],
           [VInt 1, Conflict {|VInt 1, VInt 2|}, VInt 27],
           [VInt 2, VInt 5, VInt 78]], None)"
proof -
  let ?out = "[[VStr ''id'', VStr ''bar'', VStr ''baz''],
         [VInt 1, Conflict {|VInt 1, VInt 2|}, VInt 27],
         [VInt 2, VInt 5, VInt 78]]"
  have c1: "sort_contract int_key_le env0 sort_first_int merge_table2 (KField ''id'')"
    by (simp add: sort_contract_def key_ordered_def sort_first_int_def merge_table2_def
        int_key_le_def env0_def antisymp_on_def eval_simps)
  have c2: "sort_contract int_key_le env0 sort_first_int ?out (KField ''id'')"
    by (simp add: sort_contract_def key_ordered_def sort_first_int_def
        int_key_le_def env0_def antisymp_on_def eval_simps)
  have it: "iter_MergeDuplicatesView env0
        (mergeduplicates sort_first_int merge_table2 (KField ''id'') VNone False) = (?out, None)"
    by (simp add: iter_MergeDuplicatesView_def mergeduplicates_def MergeDuplicatesView_def
        sort_first_int_def merge_table2_def itermergeduplicates_def env0_def eval_simps
        merge_group_def mergedvals_def py_set_def normedval_def fcard_finsert_if fcard_fempty
        Conflict_def)
  from c1 c2 have "\<not> False \<longrightarrow>
      sort_contract int_key_le env0 sort_first_int merge_table2 (KField ''id'')
      \<and> sort_contract int_key_le env0 sort_first_int ?out (KField ''id'')" by simp
  from mergeduplicates_idempotent [OF it this] c1 c2 it show ?thesis by simp
qed

end
